theory Spec2Isabelle
  imports Main "HOL-Library.Word" "HOL-Library.Char_ord" "HOL-Library.List_Lexorder"
begin

unbundle bit_operations_syntax

section \<open>Client metrics: registry, delta encoder and exposition format\<close>

text \<open>
  A shallow embedding of \<^verbatim>\<open>util/clientmetric/clientmetric.go\<close>.

  \<^item> \<^verbatim>\<open>int64\<close> is \<open>64 word\<close>: addition and subtraction wrap, \<open>sint\<close> reads the
    signed value.
  \<^item> Go strings are byte sequences: \<open>string\<close> (a list of 8-bit \<open>char\<close>s).
  \<^item> Go's \<^verbatim>\<open>int\<close> (the wire ids, \<^verbatim>\<open>numWireID\<close>, \<^verbatim>\<open>len\<close>) is \<open>int\<close>/\<open>nat\<close>: the
    counter grows by one per registered metric and a length is bounded by the
    address space, so neither reaches the machine bound; the conversions
    \<^verbatim>\<open>int64(wireID)\<close> and \<^verbatim>\<open>int64(len(name))\<close> are written as \<open>word_of_int\<close> and
    \<open>of_nat\<close>.
  \<^item> \<^verbatim>\<open>time.Time\<close> is an \<open>int\<close>, the nanoseconds elapsed since the zero instant
    of the \<^verbatim>\<open>time\<close> package on one clock; \<^verbatim>\<open>time.Now()\<close> is a parameter
    \<open>now\<close> of the functions that read the clock.
  \<^item> \<^verbatim>\<open>*Metric\<close> is an index into a store of allocated \<^verbatim>\<open>Metric\<close> objects,
    because the registry map, the sorted cache and the callers share them.
  \<^item> The order in which \<^verbatim>\<open>range metrics\<close> visits a Go map is not specified:
    the functions that range over the map take the order of the keys as a
    parameter \<open>order\<close>.
  \<^item> A panic is the value \<open>Inl msg\<close>, returned next to the state in which the
    panic leaves the package variables.
\<close>

subsection \<open>Standard library: \<^verbatim>\<open>encoding/binary\<close> and \<^verbatim>\<open>encoding/hex\<close>\<close>

type_synonym int64 = "64 word"
type_synonym uint64 = "64 word"
type_synonym byte = "8 word"

text \<open>
  \<^verbatim>\<open>binary.PutUvarint\<close>: while \<^verbatim>\<open>x >= 0x80\<close>, store \<^verbatim>\<open>byte(x) | 0x80\<close> and shift
  \<^verbatim>\<open>x\<close> right by 7; then store \<^verbatim>\<open>byte(x)\<close>. The result is the bytes written.
\<close>

function PutUvarint :: "uint64 \<Rightarrow> byte list" where
  "PutUvarint x =
     (if x \<ge> 0x80 then (ucast x OR 0x80) # PutUvarint (drop_bit 7 x)
      else [ucast x])"
  by pat_completeness auto
termination
proof (relation "measure unat")
  show "wf (measure (unat :: uint64 \<Rightarrow> nat))" by simp
next
  fix x :: uint64
  assume "0x80 \<le> x"
  then have "128 \<le> unat x" by (simp add: word_le_nat_alt)
  then have "unat x div 128 < unat x" by simp
  then show "(drop_bit 7 x, x) \<in> measure unat"
    by (simp add: drop_bit_eq_div unat_div)
qed

declare PutUvarint.simps [simp del]

text \<open>
  \<^verbatim>\<open>binary.PutVarint\<close>: \<^verbatim>\<open>ux := uint64(x) << 1; if x < 0 { ux = ^ux }\<close>, then
  \<^verbatim>\<open>PutUvarint(ux)\<close>.
\<close>

definition PutVarint :: "int64 \<Rightarrow> byte list" where
  "PutVarint x =
     (let ux = push_bit 1 x;
          ux = (if x <s 0 then NOT ux else ux)
      in PutUvarint ux)"

text \<open>\<^verbatim>\<open>hex.Encode\<close>: each byte \<^verbatim>\<open>v\<close> becomes \<^verbatim>\<open>hextable[v>>4]\<close>, \<^verbatim>\<open>hextable[v&0x0f]\<close>.\<close>

definition hextable :: string where
  "hextable = ''0123456789abcdef''"

fun hex_Encode :: "byte list \<Rightarrow> string" where
  "hex_Encode [] = []"
| "hex_Encode (v # src) =
     hextable ! unat (drop_bit 4 v) # hextable ! unat (v AND 0x0f) # hex_Encode src"

subsection \<open>The record writers of \<^verbatim>\<open>deltaEncBuf\<close>\<close>

text \<open>
  The buffer is the string written so far. \<^verbatim>\<open>writeHexVarint\<close> puts the varint
  into the scratch array, grows the buffer, hex-encodes into the grown space and
  appends it: the buffer gains the hex text of the varint.
\<close>

definition writeHexVarint :: "string \<Rightarrow> int64 \<Rightarrow> string" where
  "writeHexVarint buf v = buf @ hex_Encode (PutVarint v)"

definition writeName :: "string \<Rightarrow> string \<Rightarrow> string" where
  "writeName buf name =
     writeHexVarint (buf @ [CHR ''N'']) (of_nat (length name)) @ name"

definition writeValue :: "string \<Rightarrow> int \<Rightarrow> int64 \<Rightarrow> string" where
  "writeValue buf wireID v =
     writeHexVarint (writeHexVarint (buf @ [CHR ''S'']) (word_of_int wireID)) v"

definition writeDelta :: "string \<Rightarrow> int \<Rightarrow> int64 \<Rightarrow> string" where
  "writeDelta buf wireID v =
     writeHexVarint (writeHexVarint (buf @ [CHR ''I'']) (word_of_int wireID)) v"

subsection \<open>Standard library: \<^verbatim>\<open>time\<close>, \<^verbatim>\<open>strings\<close>, \<^verbatim>\<open>fmt\<close>\<close>

type_synonym Time = int
type_synonym Duration = int

definition IsZero :: "Time \<Rightarrow> bool" where
  "IsZero t = (t = 0)"

definition maxDuration :: Duration where
  "maxDuration = 2 ^ 63 - 1"

definition minDuration :: Duration where
  "minDuration = - (2 ^ 63)"

text \<open>\<^verbatim>\<open>t.Sub(u)\<close> is the duration \<^verbatim>\<open>t - u\<close>, an \<^verbatim>\<open>int64\<close> of nanoseconds that
  saturates at the largest and the smallest duration.\<close>

definition Sub :: "Time \<Rightarrow> Time \<Rightarrow> Duration" where
  "Sub t u =
     (let d = t - u
      in if d > maxDuration then maxDuration
         else if d < minDuration then minDuration
         else d)"

definition Second :: Duration where
  "Second = 1000000000"

definition Hour :: Duration where
  "Hour = 3600 * Second"

text \<open>
  \<^verbatim>\<open>strings.IndexFunc(s, f)\<close>: the index of the first code point of \<^verbatim>\<open>s\<close> that
  satisfies \<^verbatim>\<open>f\<close>, or \<open>-1\<close>. It is used with \<^verbatim>\<open>isIllegalMetricRune\<close> only, which
  holds of every code point that is not one ASCII byte (and of the replacement
  code point that an invalid byte decodes to): up to the first illegal code
  point the string is one byte per code point, so the scan over bytes finds the
  same index.
\<close>

fun IndexFunc :: "string \<Rightarrow> (char \<Rightarrow> bool) \<Rightarrow> int" where
  "IndexFunc [] f = - 1"
| "IndexFunc (c # s) f =
     (if f c then 0
      else (let i = IndexFunc s f in if i = - 1 then - 1 else i + 1))"

text \<open>The verb \<^verbatim>\<open>%v\<close> of \<^verbatim>\<open>fmt\<close> on an \<^verbatim>\<open>int64\<close>: the decimal digits, after a
  minus sign when the number is negative.\<close>

function FormatUint :: "nat \<Rightarrow> string" where
  "FormatUint n =
     (if n < 10 then [''0123456789'' ! n]
      else FormatUint (n div 10) @ [''0123456789'' ! (n mod 10)])"
  by pat_completeness auto
termination
  by (relation "measure id") auto

declare FormatUint.simps [simp del]

definition FormatInt :: "int64 \<Rightarrow> string" where
  "FormatInt i =
     (if sint i < 0 then CHR ''-'' # FormatUint (nat (- sint i))
      else FormatUint (nat (sint i)))"

subsection \<open>The metric and the package variables\<close>

type_synonym Type = "8 word"

definition TypeGauge :: Type where
  "TypeGauge = 0"

definition TypeCounter :: Type where
  "TypeCounter = 1"

record Metric =
  m_v :: int64
  m_name :: string
  m_typ :: Type
  m_wireID :: int
  m_lastNamed :: Time
  m_lastLogVal :: int64

text \<open>
  The package variables, and the store of the \<^verbatim>\<open>Metric\<close> objects allocated so
  far: a \<^verbatim>\<open>*Metric\<close> is an index into \<open>heap\<close>, and the pointers that callers
  hold are the indices below its length. The mutex is held by every function
  that touches the package variables, so each such function is one step.
  \<^verbatim>\<open>Add\<close> and \<^verbatim>\<open>Set\<close> take no lock: they are atomic on the value, which a scan
  loads once for each metric. Every call is one step here; a change of a value
  that falls inside a scan is not part of the model. \<^verbatim>\<open>sorted\<close> is
  \<open>sorted_slice\<close> here.
\<close>

record state =
  heap :: "Metric list"
  metrics :: "string \<rightharpoonup> nat"
  numWireID :: int
  lastDelta :: Time
  sortedDirty :: bool
  sorted_slice :: "nat list"

definition init :: state where
  "init = \<lparr>heap = [], metrics = Map.empty, numWireID = 0, lastDelta = 0,
           sortedDirty = False, sorted_slice = []\<rparr>"

datatype panic =
  UnnamedMetric
| DuplicateMetric string
| IllegalMetricName string int

definition Name :: "nat \<Rightarrow> state \<Rightarrow> string" where
  "Name m s = m_name (heap s ! m)"

definition Value :: "nat \<Rightarrow> state \<Rightarrow> int64" where
  "Value m s = m_v (heap s ! m)"

definition Type :: "nat \<Rightarrow> state \<Rightarrow> Type" where
  "Type m s = m_typ (heap s ! m)"

definition Add :: "nat \<Rightarrow> int64 \<Rightarrow> state \<Rightarrow> state" where
  "Add m n s = s\<lparr>heap := (heap s)[m := (heap s ! m)\<lparr>m_v := m_v (heap s ! m) + n\<rparr>]\<rparr>"

definition Set :: "nat \<Rightarrow> int64 \<Rightarrow> state \<Rightarrow> state" where
  "Set m x s = s\<lparr>heap := (heap s)[m := (heap s ! m)\<lparr>m_v := x\<rparr>]\<rparr>"

subsection \<open>Registration\<close>

definition Publish :: "nat \<Rightarrow> state \<Rightarrow> (panic + unit) \<times> state" where
  "Publish m s =
     (if Name m s = [] then (Inl UnnamedMetric, s)
      else if metrics s (Name m s) \<noteq> None then (Inl (DuplicateMetric (Name m s)), s)
      else (Inr (), s\<lparr>metrics := (metrics s)(Name m s \<mapsto> m), sortedDirty := True\<rparr>))"

definition isIllegalMetricRune :: "char \<Rightarrow> bool" where
  "isIllegalMetricRune r =
     (\<not> (r \<ge> CHR ''a'' \<and> r \<le> CHR ''z'' \<or>
         r \<ge> CHR ''A'' \<and> r \<le> CHR ''Z'' \<or>
         r \<ge> CHR ''0'' \<and> r \<le> CHR ''9'' \<or>
         r = CHR ''_''))"

definition NewUnpublished :: "string \<Rightarrow> Type \<Rightarrow> state \<Rightarrow> (panic + nat) \<times> state" where
  "NewUnpublished name typ s =
     (let i = IndexFunc name isIllegalMetricRune
      in if name = [] \<or> i \<noteq> - 1 then (Inl (IllegalMetricName name i), s)
         else (Inr (length (heap s)),
               s\<lparr>heap := heap s @
                    [\<lparr>m_v = 0, m_name = name, m_typ = typ, m_wireID = 0,
                      m_lastNamed = 0, m_lastLogVal = 0\<rparr>]\<rparr>))"

definition NewCounter :: "string \<Rightarrow> state \<Rightarrow> (panic + nat) \<times> state" where
  "NewCounter name s =
     (case NewUnpublished name TypeCounter s of
        (Inl e, s') \<Rightarrow> (Inl e, s')
      | (Inr m, s') \<Rightarrow>
          (case Publish m s' of
             (Inl e, s'') \<Rightarrow> (Inl e, s'')
           | (Inr _, s'') \<Rightarrow> (Inr m, s'')))"

definition NewGauge :: "string \<Rightarrow> state \<Rightarrow> (panic + nat) \<times> state" where
  "NewGauge name s =
     (case NewUnpublished name TypeGauge s of
        (Inl e, s') \<Rightarrow> (Inl e, s')
      | (Inr m, s') \<Rightarrow>
          (case Publish m s' of
             (Inl e, s'') \<Rightarrow> (Inl e, s'')
           | (Inr _, s'') \<Rightarrow> (Inr m, s'')))"

subsection \<open>The sorted list and the exposition format\<close>

text \<open>
  \<^verbatim>\<open>range metrics\<close> in the order \<open>order\<close> of the keys: the values of the keys
  that the map holds.
\<close>

definition range_metrics :: "string list \<Rightarrow> state \<Rightarrow> nat list" where
  "range_metrics order s = List.map_filter (metrics s) order"

text \<open>
  \<^verbatim>\<open>sort.Slice\<close> with the comparison of the names is \<open>sort_key\<close> on the name:
  \<^verbatim>\<open>sort.Slice\<close> is not stable, which no registry can observe, since the names
  of registered metrics are the distinct keys of the map. Go compares strings
  byte by byte, as the lexicographic order on \<open>string\<close> does.
\<close>

definition Metrics :: "string list \<Rightarrow> state \<Rightarrow> nat list \<times> state" where
  "Metrics order s =
     (if sortedDirty s then
        (let sorted' = sort_key (\<lambda>m. m_name (heap s ! m)) (range_metrics order s)
         in (sorted', s\<lparr>sortedDirty := False, sorted_slice := sorted'\<rparr>))
      else (sorted_slice s, s))"

definition newline :: string where
  "newline = [CHR 0x0A]"

definition writeMetric :: "state \<Rightarrow> string \<Rightarrow> nat \<Rightarrow> string" where
  "writeMetric s w m =
     (let w = (if Type m s = TypeGauge then w @ ''# TYPE '' @ Name m s @ '' gauge'' @ newline
               else if Type m s = TypeCounter then w @ ''# TYPE '' @ Name m s @ '' counter'' @ newline
               else w)
      in w @ Name m s @ '' '' @ FormatInt (Value m s) @ newline)"

definition WritePrometheusExpositionFormat :: "string list \<Rightarrow> string \<Rightarrow> state \<Rightarrow> string \<times> state" where
  "WritePrometheusExpositionFormat order w s =
     (case Metrics order s of (ms, s') \<Rightarrow> (foldl (writeMetric s') w ms, s'))"

subsection \<open>The delta encoder\<close>

definition metricLogNameFrequency :: Duration where
  "metricLogNameFrequency = 4 * Hour"

definition minMetricEncodeInterval :: Duration where
  "minMetricEncodeInterval = 15 * Second"

text \<open>
  The body of the loop over the metrics, for the metric \<open>m\<close>. \<open>enc\<close> is \<open>None\<close>
  while the buffer has not been taken from the pool; a buffer taken from the
  pool is reset, so it starts empty.
\<close>

definition encodeMetric :: "Time \<Rightarrow> nat \<Rightarrow> state \<times> string option \<Rightarrow> state \<times> string option" where
  "encodeMetric now m = (\<lambda>(s, enc).
     (let val = Value m s;
          delta = val - m_lastLogVal (heap s ! m)
      in if delta = 0 then (s, enc)
         else
           (let buf = (case enc of None \<Rightarrow> [] | Some b \<Rightarrow> b);
                s = s\<lparr>heap := (heap s)[m := (heap s ! m)\<lparr>m_lastLogVal := val\<rparr>]\<rparr>;
                s = (if m_wireID (heap s ! m) = 0
                     then s\<lparr>numWireID := numWireID s + 1,
                            heap := (heap s)[m := (heap s ! m)\<lparr>m_wireID := numWireID s + 1\<rparr>]\<rparr>
                     else s)
            in if IsZero (m_lastNamed (heap s ! m)) \<or>
                  Sub now (m_lastNamed (heap s ! m)) > metricLogNameFrequency
               then
                 (let buf = writeName buf (Name m s);
                      s = s\<lparr>heap := (heap s)[m := (heap s ! m)\<lparr>m_lastNamed := now\<rparr>]\<rparr>;
                      buf = writeValue buf (m_wireID (heap s ! m)) val
                  in (s, Some buf))
               else (s, Some (writeDelta buf (m_wireID (heap s ! m)) delta)))))"

fun encodeLoop :: "Time \<Rightarrow> nat list \<Rightarrow> state \<times> string option \<Rightarrow> state \<times> string option" where
  "encodeLoop now [] acc = acc"
| "encodeLoop now (m # ms) acc = encodeLoop now ms (encodeMetric now m acc)"

definition EncodeLogTailMetricsDelta :: "Time \<Rightarrow> string list \<Rightarrow> state \<Rightarrow> string \<times> state" where
  "EncodeLogTailMetricsDelta now order s =
     (if \<not> IsZero (lastDelta s) \<and> Sub now (lastDelta s) < minMetricEncodeInterval
      then ([], s)
      else
        (let s = s\<lparr>lastDelta := now\<rparr>
         in case encodeLoop now (range_metrics order s) (s, None) of
              (s, None) \<Rightarrow> ([], s)
            | (s, Some buf) \<Rightarrow> (buf, s)))"

subsection \<open>The programs that use the package\<close>

text \<open>
  A caller can also hold a \<^verbatim>\<open>Metric\<close> that no constructor made: the zero value
  (\<^verbatim>\<open>new(clientmetric.Metric)\<close>), whose name is empty.
\<close>

definition new_Metric :: "state \<Rightarrow> nat \<times> state" where
  "new_Metric s =
     (length (heap s),
      s\<lparr>heap := heap s @
           [\<lparr>m_v = 0, m_name = [], m_typ = 0, m_wireID = 0,
             m_lastNamed = 0, m_lastLogVal = 0\<rparr>]\<rparr>)"

text \<open>An order in which \<^verbatim>\<open>range metrics\<close> can visit the map: each key once.\<close>

definition key_order :: "string list \<Rightarrow> state \<Rightarrow> bool" where
  "key_order order s = (distinct order \<and> set order = dom (metrics s))"

text \<open>
  One call of the exported interface, by any caller, on a metric it holds. The
  exposition writer changes the state as \<open>Metrics\<close> does.
\<close>

inductive step :: "state \<Rightarrow> state \<Rightarrow> bool" where
  step_new: "step s (snd (new_Metric s))"
| step_NewUnpublished: "step s (snd (NewUnpublished name typ s))"
| step_Publish: "m < length (heap s) \<Longrightarrow> step s (snd (Publish m s))"
| step_Add: "m < length (heap s) \<Longrightarrow> step s (Add m n s)"
| step_Set: "m < length (heap s) \<Longrightarrow> step s (Set m x s)"
| step_Metrics: "key_order order s \<Longrightarrow> step s (snd (Metrics order s))"
| step_Encode: "key_order order s \<Longrightarrow> step s (snd (EncodeLogTailMetricsDelta now order s))"

definition reachable :: "state \<Rightarrow> bool" where
  "reachable s = step\<^sup>*\<^sup>* init s"

subsection \<open>What one visit of the encoder does to a metric\<close>

text \<open>
  Read off the loop body: a metric is pending when its value differs from the
  value last logged; a pending metric is named when it was never named or was
  named more than \<open>metricLogNameFrequency\<close> ago. \<open>n\<close> is \<open>numWireID\<close> before the
  visit.
\<close>

definition pending :: "Metric \<Rightarrow> bool" where
  "pending m = (m_v m \<noteq> m_lastLogVal m)"

definition needsName :: "Time \<Rightarrow> Metric \<Rightarrow> bool" where
  "needsName now m = (IsZero (m_lastNamed m) \<or> Sub now (m_lastNamed m) > metricLogNameFrequency)"

definition unassigned :: "Metric \<Rightarrow> bool" where
  "unassigned m = (pending m \<and> m_wireID m = 0)"

definition bump :: "int \<Rightarrow> Metric \<Rightarrow> int" where
  "bump n m = (if unassigned m then n + 1 else n)"

definition visited :: "Time \<Rightarrow> int \<Rightarrow> Metric \<Rightarrow> Metric" where
  "visited now n m =
     (if pending m
      then m\<lparr>m_lastLogVal := m_v m,
             m_wireID := (if m_wireID m = 0 then n + 1 else m_wireID m),
             m_lastNamed := (if needsName now m then now else m_lastNamed m)\<rparr>
      else m)"

definition emitted :: "Time \<Rightarrow> int \<Rightarrow> Metric \<Rightarrow> string" where
  "emitted now n m =
     (if pending m
      then (let wid = (if m_wireID m = 0 then n + 1 else m_wireID m)
            in if needsName now m
               then writeValue (writeName [] (m_name m)) wid (m_v m)
               else writeDelta [] wid (m_v m - m_lastLogVal m))
      else [])"

fun visits :: "Time \<Rightarrow> int \<Rightarrow> Metric list \<Rightarrow> (Metric \<times> string) list" where
  "visits now n [] = []"
| "visits now n (m # ms) = (visited now n m, emitted now n m) # visits now (bump n m) ms"


definition bufOf :: "string option \<Rightarrow> string" where
  "bufOf enc = (case enc of None \<Rightarrow> [] | Some b \<Rightarrow> b)"

subsection \<open>Invariants of the package variables\<close>

text \<open>The map holds allocated metrics under their own names.\<close>

definition reg_ok :: "state \<Rightarrow> bool" where
  "reg_ok s = (\<forall>k p. metrics s k = Some p \<longrightarrow> p < length (heap s) \<and> m_name (heap s ! p) = k)"

text \<open>The wire ids in use are positive, at most \<open>numWireID\<close>, and no two metrics
  share one.\<close>

definition wire_ok :: "state \<Rightarrow> bool" where
  "wire_ok s =
     (0 \<le> numWireID s \<and>
      (\<forall>p < length (heap s). 0 \<le> m_wireID (heap s ! p) \<and> m_wireID (heap s ! p) \<le> numWireID s) \<and>
      (\<forall>p < length (heap s). \<forall>q < length (heap s).
          m_wireID (heap s ! p) = m_wireID (heap s ! q) \<and> m_wireID (heap s ! p) \<noteq> 0 \<longrightarrow> p = q))"

text \<open>A cache that is not dirty lists the registered metrics, each once, by name.\<close>

definition cache_ok :: "state \<Rightarrow> bool" where
  "cache_ok s =
     (\<not> sortedDirty s \<longrightarrow>
        distinct (sorted_slice s) \<and> set (sorted_slice s) = ran (metrics s) \<and>
        sorted (map (\<lambda>m. m_name (heap s ! m)) (sorted_slice s)))"

text \<open>Every allocated metric has a legal name, or the empty name of the zero
  value; the empty name is not registered.\<close>

definition legal_name :: "string \<Rightarrow> bool" where
  "legal_name name = (name \<noteq> [] \<and> (\<forall>c \<in> set name. \<not> isIllegalMetricRune c))"

definition names_ok :: "state \<Rightarrow> bool" where
  "names_ok s =
     ((\<forall>p < length (heap s). m_name (heap s ! p) = [] \<or> legal_name (m_name (heap s ! p))) \<and>
      (\<forall>k \<in> dom (metrics s). legal_name k))"

definition inv :: "state \<Rightarrow> bool" where
  "inv s = (reg_ok s \<and> wire_ok s \<and> cache_ok s \<and> names_ok s)"

subsection \<open>Auxiliary notions for the statements\<close>

text \<open>The state after the loop body has run for the metric \<open>p\<close>.\<close>

definition visit :: "Time \<Rightarrow> nat \<Rightarrow> state \<Rightarrow> state" where
  "visit now p s = s\<lparr>numWireID := bump (numWireID s) (heap s ! p),
        heap := (heap s)[p := visited now (numWireID s) (heap s ! p)]\<rparr>"

text \<open>The test at the head of \<^verbatim>\<open>EncodeLogTailMetricsDelta\<close>.\<close>

definition limited :: "Time \<Rightarrow> state \<Rightarrow> bool" where
  "limited now s = (\<not> IsZero (lastDelta s) \<and> Sub now (lastDelta s) < minMetricEncodeInterval)"

subsection \<open>The wire format in the words of its description\<close>

text \<open>
  The signed varint of protocol buffers: the zigzag code sends \<open>0, -1, 1, -2, \<dots>\<close>
  to \<open>0, 1, 2, 3, \<dots>\<close>; the result is written in groups of seven bits, lowest
  group first, each byte but the last with its top bit set.
\<close>

definition spec_zigzag :: "int \<Rightarrow> int" where
  "spec_zigzag n = (if 0 \<le> n then 2 * n else - 2 * n - 1)"

function spec_base128 :: "nat \<Rightarrow> byte list" where
  "spec_base128 n =
     (if n < 128 then [of_nat n]
      else of_nat (n mod 128 + 128) # spec_base128 (n div 128))"
  by pat_completeness auto
termination
  by (relation "measure id") auto

declare spec_base128.simps [simp del]

text \<open>A byte as two lowercase hexadecimal digits, the high one first.\<close>

definition spec_hex_digit :: "nat \<Rightarrow> char" where
  "spec_hex_digit d =
     (if d < 10 then char_of (of_char CHR ''0'' + d)
      else char_of (of_char CHR ''a'' + (d - 10)))"

definition spec_hex_byte :: "byte \<Rightarrow> string" where
  "spec_hex_byte b = [spec_hex_digit (unat b div 16), spec_hex_digit (unat b mod 16)]"

definition spec_hexvarint :: "int64 \<Rightarrow> string" where
  "spec_hexvarint x = concat (map spec_hex_byte (spec_base128 (nat (spec_zigzag (sint x)))))"

text \<open>The number that a string of decimal digits denotes.\<close>

definition decimal_value :: "string \<Rightarrow> nat" where
  "decimal_value ds = foldl (\<lambda>a c. 10 * a + (of_char c - 48)) 0 ds"

text \<open>The characters that a frame may contain.\<close>

definition frame_char :: "char \<Rightarrow> bool" where
  "frame_char c =
     (c \<in> {CHR ''N'', CHR ''S'', CHR ''I''} \<or> c \<in> set hextable \<or>
      \<not> isIllegalMetricRune c)"

text \<open>
  How the wire ids of a later state \<open>s'\<close> relate to those of \<open>s\<close>: no metric and no
  id is lost, an id that was given stays, and an id given in between is larger
  than the counter was.
\<close>

definition wire_mono :: "state \<Rightarrow> state \<Rightarrow> bool" where
  "wire_mono s s' =
     (length (heap s) \<le> length (heap s') \<and> numWireID s \<le> numWireID s' \<and>
      (\<forall>p < length (heap s). m_wireID (heap s ! p) \<noteq> 0 \<longrightarrow>
          m_wireID (heap s' ! p) = m_wireID (heap s ! p)) \<and>
      (\<forall>p < length (heap s'). (length (heap s) \<le> p \<or> m_wireID (heap s ! p) = 0) \<and>
          m_wireID (heap s' ! p) \<noteq> 0 \<longrightarrow> numWireID s < m_wireID (heap s' ! p)))"

text \<open>The two lines that the exposition format has for a metric.\<close>

definition exposition_lines :: "Metric \<Rightarrow> string" where
  "exposition_lines m =
     (if m_typ m = TypeGauge then ''# TYPE '' @ m_name m @ '' gauge'' @ newline
      else if m_typ m = TypeCounter then ''# TYPE '' @ m_name m @ '' counter'' @ newline
      else []) @
     m_name m @ '' '' @ FormatInt (m_v m) @ newline"

text \<open>
  Construct, then register: what \<^verbatim>\<open>NewCounter\<close> and \<^verbatim>\<open>NewGauge\<close> do, for any
  \<^verbatim>\<open>Type\<close>, and what a caller does with \<^verbatim>\<open>NewUnpublished\<close> and \<^verbatim>\<open>Publish\<close>.
\<close>

definition register :: "string \<Rightarrow> Type \<Rightarrow> state \<Rightarrow> (panic + nat) \<times> state" where
  "register name typ s =
     (case NewUnpublished name typ s of
        (Inl e, s') \<Rightarrow> (Inl e, s')
      | (Inr m, s') \<Rightarrow>
          (case Publish m s' of
             (Inl e, s'') \<Rightarrow> (Inl e, s'')
           | (Inr _, s'') \<Rightarrow> (Inr m, s'')))"

text \<open>The package variables of the registry are those of \<open>s\<close>, and so are the
  metrics that \<open>s\<close> holds.\<close>

definition registry_unchanged :: "state \<Rightarrow> state \<Rightarrow> bool" where
  "registry_unchanged s s' =
     (metrics s' = metrics s \<and> sortedDirty s' = sortedDirty s \<and>
      sorted_slice s' = sorted_slice s \<and> numWireID s' = numWireID s \<and>
      lastDelta s' = lastDelta s \<and> take (length (heap s)) (heap s') = heap s)"

subsection \<open>A consumer of the frames\<close>

text \<open>
  The repository has the encoder only. To state what a frame means to its
  reader, the decoder below follows the wire format in the words of its
  description (section 4.2 of the specification): a record stream is parsed
  record by record until the input is exhausted, a name record names the wire
  id of the record that follows it, a value record sets the value of a wire id,
  an increment record adds to it. A value not yet set is 0.
\<close>

definition hex_val :: "char \<Rightarrow> nat option" where
  "hex_val c =
     (let n = (of_char c :: nat)
      in if 48 \<le> n \<and> n \<le> 57 then Some (n - 48)
         else if 97 \<le> n \<and> n \<le> 102 then Some (n - 87)
         else None)"

fun read_uvarint :: "string \<Rightarrow> (nat \<times> string) option" where
  "read_uvarint (c1 # c2 # rest) =
     (case hex_val c1 of
        None \<Rightarrow> None
      | Some h \<Rightarrow>
          (case hex_val c2 of
             None \<Rightarrow> None
           | Some l \<Rightarrow>
               (if 16 * h + l < 128 then Some (16 * h + l, rest)
                else (case read_uvarint rest of
                        None \<Rightarrow> None
                      | Some (n, rest') \<Rightarrow> Some (16 * h + l - 128 + 128 * n, rest')))))"
| "read_uvarint _ = None"

definition unzigzag :: "nat \<Rightarrow> int" where
  "unzigzag n = (if even n then int (n div 2) else - int (n div 2) - 1)"

definition read_varint :: "string \<Rightarrow> (int \<times> string) option" where
  "read_varint s =
     (case read_uvarint s of None \<Rightarrow> None | Some (n, rest) \<Rightarrow> Some (unzigzag n, rest))"

record decoder =
  d_names :: "int \<rightharpoonup> string"
  d_values :: "int \<Rightarrow> int64"
  d_pending :: "string option"

definition decoder0 :: decoder where
  "decoder0 = \<lparr>d_names = Map.empty, d_values = (\<lambda>_. 0), d_pending = None\<rparr>"

fun decode_record :: "string \<Rightarrow> decoder \<Rightarrow> (decoder \<times> string) option" where
  "decode_record [] d = None"
| "decode_record (c # rest) d =
     (if c = CHR ''N'' then
        (case read_varint rest of
           None \<Rightarrow> None
         | Some (n, r) \<Rightarrow>
             if 0 \<le> n \<and> nat n \<le> length r
             then Some (d\<lparr>d_pending := Some (take (nat n) r)\<rparr>, drop (nat n) r)
             else None)
      else if c = CHR ''S'' then
        (case read_varint rest of
           None \<Rightarrow> None
         | Some (w, r) \<Rightarrow>
             (case read_varint r of
                None \<Rightarrow> None
              | Some (x, r') \<Rightarrow>
                  Some (d\<lparr>d_names := (case d_pending d of
                                         None \<Rightarrow> d_names d
                                       | Some nm \<Rightarrow> (d_names d)(w \<mapsto> nm)),
                          d_values := (d_values d)(w := word_of_int x),
                          d_pending := None\<rparr>, r')))
      else if c = CHR ''I'' then
        (case read_varint rest of
           None \<Rightarrow> None
         | Some (w, r) \<Rightarrow>
             (case read_varint r of
                None \<Rightarrow> None
              | Some (x, r') \<Rightarrow>
                  Some (d\<lparr>d_values := (d_values d)(w := d_values d w + word_of_int x),
                          d_pending := None\<rparr>, r')))
      else None)"

fun decode_fuel :: "nat \<Rightarrow> string \<Rightarrow> decoder \<Rightarrow> decoder option" where
  "decode_fuel 0 s d = (if s = [] then Some d else None)"
| "decode_fuel (Suc k) s d =
     (if s = [] then Some d
      else (case decode_record s d of
              None \<Rightarrow> None
            | Some (d', rest) \<Rightarrow> decode_fuel k rest d'))"

text \<open>Every record has at least one character, so the length of the frame is
  fuel enough.\<close>

definition decode_frame :: "string \<Rightarrow> decoder \<Rightarrow> decoder option" where
  "decode_frame s d = decode_fuel (length s) s d"

subsection \<open>A run of the package\<close>

text \<open>
  A counter \<^verbatim>\<open>foo_total\<close> is registered, 10 is added, the encoder runs at the
  time \<open>t0\<close>, 4 is taken away, and the encoder runs again 15 seconds later.
\<close>

definition t0 :: Time where
  "t0 = 1700000000 * Second"

definition sc0 :: state where
  "sc0 = snd (NewCounter ''foo_total'' init)"

definition sc1 :: state where
  "sc1 = Add 0 10 sc0"

definition sc2 :: state where
  "sc2 = snd (EncodeLogTailMetricsDelta t0 [''foo_total''] sc1)"

definition sc3 :: state where
  "sc3 = Add 0 (- 4) sc2"

definition sc4 :: state where
  "sc4 = snd (EncodeLogTailMetricsDelta (t0 + 15 * Second) [''foo_total''] sc3)"

text \<open>A gauge \<^verbatim>\<open>g_1\<close> is registered and set to the least \<^verbatim>\<open>int64\<close>.\<close>

definition sg :: state where
  "sg = Set 0 (- 9223372036854775808) (snd (NewGauge ''g_1'' init))"

text \<open>
  Two counters, \<^verbatim>\<open>a\<close> registered before \<^verbatim>\<open>b\<close>. Only \<^verbatim>\<open>b\<close> has changed when the
  encoder first runs; \<^verbatim>\<open>a\<close> changes before the second run. In \<open>w5\<close> both have
  changed before any run.
\<close>

definition w0 :: state where
  "w0 = snd (NewCounter ''b'' (snd (NewCounter ''a'' init)))"

definition w1 :: state where
  "w1 = Add 1 7 w0"

definition w2 :: state where
  "w2 = snd (EncodeLogTailMetricsDelta t0 [''a'', ''b''] w1)"

definition w3 :: state where
  "w3 = Add 0 3 w2"

definition w4 :: state where
  "w4 = snd (EncodeLogTailMetricsDelta (t0 + 15 * Second) [''a'', ''b''] w3)"

definition w5 :: state where
  "w5 = Add 0 3 w1"

text \<open>A counter \<^verbatim>\<open>b\<close> is registered before a gauge \<^verbatim>\<open>a\<close>, which is then set to 6.\<close>

definition v0 :: state where
  "v0 = Set 1 6 (snd (NewGauge ''a'' (snd (NewCounter ''b'' init))))"

text \<open>A metric \<^verbatim>\<open>odd\<close> made by \<^verbatim>\<open>NewUnpublished\<close> with the type 7, which is neither
  \<^verbatim>\<open>TypeGauge\<close> nor \<^verbatim>\<open>TypeCounter\<close>, and published.\<close>

definition odd0 :: state where
  "odd0 = snd (Publish 0 (snd (NewUnpublished ''odd'' 7 init)))"

section \<open>Verification\<close>

lemma bufOf_simps [simp]: "bufOf None = []" "bufOf (Some b) = b"
  by (simp_all add: bufOf_def)

lemma writeHexVarint_append: "writeHexVarint (a @ b) x = a @ writeHexVarint b x"
  by (simp add: writeHexVarint_def)

lemma writeName_append: "writeName buf name = buf @ writeName [] name"
  by (simp add: writeName_def writeHexVarint_def)

lemma writeValue_append: "writeValue buf w x = buf @ writeValue [] w x"
  by (simp add: writeValue_def writeHexVarint_def)

lemma writeDelta_append: "writeDelta buf w x = buf @ writeDelta [] w x"
  by (simp add: writeDelta_def writeHexVarint_def)

lemma encodeMetric_eq:
  assumes "p < length (heap s)"
  shows "encodeMetric now p (s, enc) =
     (s\<lparr>numWireID := bump (numWireID s) (heap s ! p),
        heap := (heap s)[p := visited now (numWireID s) (heap s ! p)]\<rparr>,
      if pending (heap s ! p)
      then Some (bufOf enc @ emitted now (numWireID s) (heap s ! p))
      else enc)"
proof (cases "pending (heap s ! p)")
  case False
  then show ?thesis
    by (simp add: encodeMetric_def Value_def pending_def bump_def unassigned_def visited_def)
next
  case True
  then have d: "m_v (heap s ! p) - m_lastLogVal (heap s ! p) \<noteq> 0"
    by (simp add: pending_def)
  show ?thesis
    using True d assms
    apply (simp add: encodeMetric_def Value_def Name_def bump_def unassigned_def visited_def emitted_def
        needsName_def bufOf_def Let_def split: option.splits)
    apply (auto simp: writeValue_append [of "writeName _ _"] writeName_append [of "_ # _"]
          writeName_append [of "_ @ _"]  writeDelta_append [of "_ # _"] writeDelta_append [of "_ @ _"])
    apply (rule writeName_append writeDelta_append)+
    done
qed

lemma encodeLoop_eq:
  assumes "distinct ps" and "\<forall>p\<in>set ps. p < length (heap s)"
    and "encodeLoop now ps (s, enc) = (s', enc')"
  shows "map (nth (heap s')) ps = map fst (visits now (numWireID s) (map (nth (heap s)) ps))
       \<and> bufOf enc' = bufOf enc @ concat (map snd (visits now (numWireID s) (map (nth (heap s)) ps)))
       \<and> numWireID s' = foldl bump (numWireID s) (map (nth (heap s)) ps)
       \<and> (\<forall>q. q \<notin> set ps \<longrightarrow> heap s' ! q = heap s ! q)
       \<and> length (heap s') = length (heap s)
       \<and> metrics s' = metrics s \<and> lastDelta s' = lastDelta s
       \<and> sortedDirty s' = sortedDirty s \<and> sorted_slice s' = sorted_slice s
       \<and> (enc' = None \<longleftrightarrow> enc = None \<and> (\<forall>p\<in>set ps. \<not> pending (heap s ! p)))"
  using assms
proof (induction ps arbitrary: s enc)
  case Nil
  then show ?case by simp
next
  case (Cons p ps)
  define s1 where "s1 = s\<lparr>numWireID := bump (numWireID s) (heap s ! p),
        heap := (heap s)[p := visited now (numWireID s) (heap s ! p)]\<rparr>"
  define enc1 where "enc1 = (if pending (heap s ! p)
      then Some (bufOf enc @ emitted now (numWireID s) (heap s ! p)) else enc)"
  have p: "p < length (heap s)" and pn: "p \<notin> set ps" and d: "distinct ps"
    using Cons.prems by auto
  have e1: "encodeMetric now p (s, enc) = (s1, enc1)"
    by (simp add: encodeMetric_eq [OF p] s1_def enc1_def)
  have l: "encodeLoop now ps (s1, enc1) = (s', enc')"
    using Cons.prems(3) by (simp add: e1)
  have b: "\<forall>q\<in>set ps. q < length (heap s1)"
    using Cons.prems(2) by (simp add: s1_def)
  note IH = Cons.IH [OF d b l]
  have neq: "\<And>q. q \<in> set ps \<Longrightarrow> heap s1 ! q = heap s ! q"
  proof -
    fix q assume "q \<in> set ps"
    with pn have "p \<noteq> q" by auto
    then show "heap s1 ! q = heap s ! q" by (simp add: s1_def)
  qed
  have same: "map (nth (heap s1)) ps = map (nth (heap s)) ps"
    using neq by simp
  have hp: "heap s' ! p = visited now (numWireID s) (heap s ! p)"
    using IH pn p by (simp add: s1_def)
  have n1: "numWireID s1 = bump (numWireID s) (heap s ! p)"
    by (simp add: s1_def)
  have b1: "bufOf enc1 = bufOf enc @ emitted now (numWireID s) (heap s ! p)"
    by (simp add: enc1_def emitted_def)
  have none: "enc1 = None \<longleftrightarrow> enc = None \<and> \<not> pending (heap s ! p)"
    by (simp add: enc1_def)
  have pend: "\<forall>q\<in>set ps. pending (heap s1 ! q) = pending (heap s ! q)"
    using neq by simp
  have f1: "metrics s1 = metrics s" "lastDelta s1 = lastDelta s"
    "sortedDirty s1 = sortedDirty s" "sorted_slice s1 = sorted_slice s"
    "length (heap s1) = length (heap s)"
    by (simp_all add: s1_def)
  have other: "\<forall>q. q \<notin> set (p # ps) \<longrightarrow> heap s' ! q = heap s ! q"
  proof (intro allI impI)
    fix q assume "q \<notin> set (p # ps)"
    then have "q \<notin> set ps" "p \<noteq> q" by auto
    then show "heap s' ! q = heap s ! q" using IH by (simp add: s1_def)
  qed
  have c1: "map (nth (heap s')) (p # ps) =
      map fst (visits now (numWireID s) (map (nth (heap s)) (p # ps)))"
    using IH hp by (simp add: same n1)
  have c2: "bufOf enc' = bufOf enc @
      concat (map snd (visits now (numWireID s) (map (nth (heap s)) (p # ps))))"
    using IH by (simp add: same n1 b1)
  have c3: "numWireID s' = foldl bump (numWireID s) (map (nth (heap s)) (p # ps))"
    using IH by (simp add: same n1)
  have c4: "enc' = None \<longleftrightarrow> enc = None \<and> (\<forall>q\<in>set (p # ps). \<not> pending (heap s ! q))"
    using IH none pend by auto
  show ?case
    using c1 c2 c3 c4 other IH f1 by simp
qed

lemma visited_fields [simp]:
  "m_name (visited now n m) = m_name m"
  "m_typ (visited now n m) = m_typ m"
  "m_v (visited now n m) = m_v m"
  by (simp_all add: visited_def)

lemma visited_lastLogVal [simp]: "m_lastLogVal (visited now n m) = m_v m"
  by (simp add: visited_def pending_def)

lemma visited_wireID:
  "m_wireID (visited now n m) = (if unassigned m then n + 1 else m_wireID m)"
  by (simp add: visited_def unassigned_def)

lemma range_metrics_eq:
  "range_metrics order s = map (\<lambda>k. the (metrics s k)) (filter (\<lambda>k. metrics s k \<noteq> None) order)"
  by (simp add: range_metrics_def List.map_filter_def comp_def)

lemma range_metrics_key_order:
  assumes "key_order order s"
  shows "range_metrics order s = map (\<lambda>k. the (metrics s k)) order"
proof -
  have "filter (\<lambda>k. metrics s k \<noteq> None) order = order"
    using assms by (auto simp: key_order_def filter_id_conv)
  then show ?thesis by (simp add: range_metrics_eq)
qed

lemma reg_ok_inj:
  assumes "reg_ok s"
  shows "inj_on (\<lambda>k. the (metrics s k)) (dom (metrics s))"
proof (rule inj_onI)
  fix k1 k2
  assume a: "k1 \<in> dom (metrics s)" "k2 \<in> dom (metrics s)"
    and e: "the (metrics s k1) = the (metrics s k2)"
  from a obtain p1 p2 where p: "metrics s k1 = Some p1" "metrics s k2 = Some p2" by auto
  with e have "p1 = p2" by simp
  with p assms show "k1 = k2" unfolding reg_ok_def by metis
qed

lemma range_metrics_props:
  assumes "reg_ok s" and "key_order order s"
  shows "distinct (range_metrics order s)"
    and "set (range_metrics order s) = ran (metrics s)"
    and "\<forall>p\<in>set (range_metrics order s). p < length (heap s)"
proof -
  have d: "distinct order" and so: "set order = dom (metrics s)"
    using assms(2) by (simp_all add: key_order_def)
  show "distinct (range_metrics order s)"
    using reg_ok_inj [OF assms(1)] d so
    by (simp add: range_metrics_key_order [OF assms(2)] distinct_map)
  show r: "set (range_metrics order s) = ran (metrics s)"
  proof -
    have "set (range_metrics order s) = (\<lambda>k. the (metrics s k)) ` dom (metrics s)"
      by (simp add: range_metrics_key_order [OF assms(2)] so)
    also have "\<dots> = ran (metrics s)"
      by (force simp: ran_def dom_def image_iff)
    finally show ?thesis .
  qed
  show "\<forall>p\<in>set (range_metrics order s). p < length (heap s)"
    using assms(1) unfolding r reg_ok_def ran_def by auto
qed

lemma encodeMetric_fst:
  "p < length (heap s) \<Longrightarrow> fst (encodeMetric now p (s, enc)) = visit now p s"
  by (simp add: encodeMetric_eq visit_def)

lemma visit_fields [simp]:
  "metrics (visit now p s) = metrics s"
  "lastDelta (visit now p s) = lastDelta s"
  "sortedDirty (visit now p s) = sortedDirty s"
  "sorted_slice (visit now p s) = sorted_slice s"
  "length (heap (visit now p s)) = length (heap s)"
  "numWireID (visit now p s) = bump (numWireID s) (heap s ! p)"
  by (simp_all add: visit_def)

lemma visit_heap_nth:
  "p < length (heap s) \<Longrightarrow>
   heap (visit now p s) ! q = (if q = p then visited now (numWireID s) (heap s ! p) else heap s ! q)"
  by (simp add: visit_def nth_list_update)

lemma visit_name [simp]:
  "p < length (heap s) \<Longrightarrow> m_name (heap (visit now p s) ! q) = m_name (heap s ! q)"
  by (simp add: visit_heap_nth)

lemma encodeLoop_preserves:
  assumes step: "\<And>s p. P s \<Longrightarrow> p < length (heap s) \<Longrightarrow> P (visit now p s)"
    and "P s" and "\<forall>p\<in>set ps. p < length (heap s)"
  shows "P (fst (encodeLoop now ps (s, enc)))"
  using assms(2,3)
proof (induction ps arbitrary: s enc)
  case Nil
  then show ?case by simp
next
  case (Cons p ps)
  have p: "p < length (heap s)" using Cons.prems by simp
  obtain enc1 where e: "encodeMetric now p (s, enc) = (visit now p s, enc1)"
    using encodeMetric_fst [OF p, of now enc] by (cases "encodeMetric now p (s, enc)") simp
  have "P (visit now p s)" using step Cons.prems(1) p by blast
  moreover have "\<forall>q\<in>set ps. q < length (heap (visit now p s))"
    using Cons.prems(2) by simp
  ultimately show ?case
    using Cons.IH [of "visit now p s" enc1] by (simp add: e)
qed

lemma visit_reg_ok: "reg_ok s \<Longrightarrow> p < length (heap s) \<Longrightarrow> reg_ok (visit now p s)"
  by (simp add: reg_ok_def)

lemma visit_names_ok: "names_ok s \<Longrightarrow> p < length (heap s) \<Longrightarrow> names_ok (visit now p s)"
  by (simp add: names_ok_def)

lemma visit_cache_ok: "cache_ok s \<Longrightarrow> p < length (heap s) \<Longrightarrow> cache_ok (visit now p s)"
  by (simp add: cache_ok_def)

lemma visit_wire_ok:
  assumes "wire_ok s" and p: "p < length (heap s)"
  shows "wire_ok (visit now p s)"
proof -
  let ?n = "numWireID s"
  have n: "0 \<le> ?n" using assms by (simp add: wire_ok_def)
  have r: "\<And>q. q < length (heap s) \<Longrightarrow> 0 \<le> m_wireID (heap s ! q) \<and> m_wireID (heap s ! q) \<le> ?n"
    using assms by (simp add: wire_ok_def)
  have i: "\<And>q q'. q < length (heap s) \<Longrightarrow> q' < length (heap s) \<Longrightarrow>
      m_wireID (heap s ! q) = m_wireID (heap s ! q') \<Longrightarrow> m_wireID (heap s ! q) \<noteq> 0 \<Longrightarrow> q = q'"
    using assms unfolding wire_ok_def by blast
  show ?thesis
  proof (cases "unassigned (heap s ! p)")
    case False
    then have w: "\<And>q. m_wireID (heap (visit now p s) ! q) = m_wireID (heap s ! q)"
      using p by (simp add: visit_heap_nth visited_wireID)
    from False have b: "numWireID (visit now p s) = ?n" by (simp add: bump_def)
    show ?thesis
      unfolding wire_ok_def w b using n r i by simp
  next
    case True
    then have w: "\<And>q. m_wireID (heap (visit now p s) ! q) = (if q = p then ?n + 1 else m_wireID (heap s ! q))"
      using p by (simp add: visit_heap_nth visited_wireID)
    from True have b: "numWireID (visit now p s) = ?n + 1" by (simp add: bump_def)
    have z: "m_wireID (heap s ! p) = 0" using True by (simp add: unassigned_def)
    show ?thesis
      unfolding wire_ok_def w b
    proof (intro conjI allI impI)
      show "0 \<le> ?n + 1" using n by simp
    next
      fix q assume "q < length (heap (visit now p s))"
      then have "q < length (heap s)" by simp
      from r [OF this] n show "0 \<le> (if q = p then ?n + 1 else m_wireID (heap s ! q))" by simp
      from r [OF \<open>q < length (heap s)\<close>] show "(if q = p then ?n + 1 else m_wireID (heap s ! q)) \<le> ?n + 1" by simp
    next
      fix q q'
      assume "q < length (heap (visit now p s))" "q' < length (heap (visit now p s))"
      then have l: "q < length (heap s)" "q' < length (heap s)" by simp_all
      assume e: "(if q = p then ?n + 1 else m_wireID (heap s ! q)) =
                 (if q' = p then ?n + 1 else m_wireID (heap s ! q')) \<and>
                 (if q = p then ?n + 1 else m_wireID (heap s ! q)) \<noteq> 0"
      show "q = q'"
      proof (cases "q = p"; cases "q' = p")
        assume "q = p" "q' = p" then show ?thesis by simp
      next
        assume "q = p" "q' \<noteq> p"
        with e r [OF l(2)] show ?thesis by simp
      next
        assume "q \<noteq> p" "q' = p"
        with e r [OF l(1)] show ?thesis by simp
      next
        assume "q \<noteq> p" "q' \<noteq> p"
        with e i [OF l] show ?thesis by simp
      qed
    qed
  qed
qed

lemma lastDelta_update_inv [simp]:
  "reg_ok (s\<lparr>lastDelta := t\<rparr>) = reg_ok s"
  "wire_ok (s\<lparr>lastDelta := t\<rparr>) = wire_ok s"
  "cache_ok (s\<lparr>lastDelta := t\<rparr>) = cache_ok s"
  "names_ok (s\<lparr>lastDelta := t\<rparr>) = names_ok s"
  by (simp_all add: reg_ok_def wire_ok_def cache_ok_def names_ok_def)

lemma range_metrics_lastDelta [simp]:
  "range_metrics order (s\<lparr>lastDelta := t\<rparr>) = range_metrics order s"
  by (simp add: range_metrics_def)

lemma Encode_snd:
  "snd (EncodeLogTailMetricsDelta now order s) =
     (if \<not> IsZero (lastDelta s) \<and> Sub now (lastDelta s) < minMetricEncodeInterval then s
      else fst (encodeLoop now (range_metrics order s) (s\<lparr>lastDelta := now\<rparr>, None)))"
  by (simp add: EncodeLogTailMetricsDelta_def Let_def split: prod.splits option.splits)

lemma Encode_fst:
  "fst (EncodeLogTailMetricsDelta now order s) =
     (if \<not> IsZero (lastDelta s) \<and> Sub now (lastDelta s) < minMetricEncodeInterval then []
      else bufOf (snd (encodeLoop now (range_metrics order s) (s\<lparr>lastDelta := now\<rparr>, None))))"
  by (simp add: EncodeLogTailMetricsDelta_def Let_def split: prod.splits option.splits)

lemma Encode_inv:
  assumes "inv s" and "key_order order s"
  shows "inv (snd (EncodeLogTailMetricsDelta now order s))"
proof -
  let ?s = "s\<lparr>lastDelta := now\<rparr>"
  have b: "\<forall>p\<in>set (range_metrics order s). p < length (heap ?s)"
    using range_metrics_props(3) [OF _ assms(2)] assms(1) by (simp add: inv_def)
  have "inv ?s" using assms(1) by (simp add: inv_def)
  then have "inv (fst (encodeLoop now (range_metrics order s) (?s, None)))"
    using b
    by (intro encodeLoop_preserves [where P = inv])
       (auto simp: inv_def visit_reg_ok visit_wire_ok visit_cache_ok visit_names_ok)
  then show ?thesis using assms(1) by (simp add: Encode_snd)
qed

lemma reg_ok_ran: "reg_ok s \<Longrightarrow> p \<in> ran (metrics s) \<Longrightarrow> p < length (heap s)"
  by (auto simp: reg_ok_def ran_def)

lemma cache_ok_alloc:
  assumes "reg_ok s" and "cache_ok s"
  shows "cache_ok (s\<lparr>heap := heap s @ [m]\<rparr>)"
proof (cases "sortedDirty s")
  case True
  then show ?thesis by (simp add: cache_ok_def)
next
  case False
  then have c: "distinct (sorted_slice s)" "set (sorted_slice s) = ran (metrics s)"
    "sorted (map (\<lambda>p. m_name (heap s ! p)) (sorted_slice s))"
    using assms(2) by (simp_all add: cache_ok_def)
  have e: "map (\<lambda>p. m_name ((heap s @ [m]) ! p)) (sorted_slice s) =
        map (\<lambda>p. m_name (heap s ! p)) (sorted_slice s)"
    using c(2) reg_ok_ran [OF assms(1)] by (intro map_cong) (auto simp: nth_append)
  show ?thesis by (simp add: cache_ok_def e c)
qed

lemma wire_ok_alloc:
  assumes "wire_ok s" and "m_wireID m = 0"
  shows "wire_ok (s\<lparr>heap := heap s @ [m]\<rparr>)"
  using assms
  by (auto simp: wire_ok_def nth_append less_Suc_eq)

lemma reg_ok_alloc: "reg_ok s \<Longrightarrow> reg_ok (s\<lparr>heap := heap s @ [m]\<rparr>)"
  by (fastforce simp: reg_ok_def nth_append)

lemma names_ok_alloc:
  "names_ok s \<Longrightarrow> m_name m = [] \<or> legal_name (m_name m) \<Longrightarrow> names_ok (s\<lparr>heap := heap s @ [m]\<rparr>)"
  by (auto simp: names_ok_def nth_append less_Suc_eq)

lemma inv_alloc:
  "inv s \<Longrightarrow> m_wireID m = 0 \<Longrightarrow> m_name m = [] \<or> legal_name (m_name m) \<Longrightarrow>
   inv (s\<lparr>heap := heap s @ [m]\<rparr>)"
  by (simp add: inv_def reg_ok_alloc wire_ok_alloc cache_ok_alloc names_ok_alloc)

lemma new_Metric_inv: "inv s \<Longrightarrow> inv (snd (new_Metric s))"
  by (simp add: new_Metric_def inv_alloc)

lemma IndexFunc_range: "- 1 \<le> IndexFunc name f"
  by (induction name) (auto simp: Let_def)

lemma IndexFunc_none: "IndexFunc name f = - 1 \<longleftrightarrow> (\<forall>c\<in>set name. \<not> f c)"
proof (induction name)
  case Nil
  then show ?case by simp
next
  case (Cons c name)
  have "IndexFunc name f + 1 \<noteq> - 1" using IndexFunc_range [of name f] by simp
  with Cons show ?case by (auto simp: Let_def)
qed

lemma NewUnpublished_inv: "inv s \<Longrightarrow> inv (snd (NewUnpublished name typ s))"
  by (auto simp: NewUnpublished_def Let_def inv_alloc legal_name_def IndexFunc_none)

lemma Publish_inv:
  assumes "inv s" and m: "m < length (heap s)"
  shows "inv (snd (Publish m s))"
proof (cases "Name m s = [] \<or> metrics s (Name m s) \<noteq> None")
  case True
  then show ?thesis using assms(1) by (auto simp: Publish_def)
next
  case False
  then have ne: "m_name (heap s ! m) \<noteq> []" and fresh: "metrics s (m_name (heap s ! m)) = None"
    by (simp_all add: Name_def)
  let ?s = "s\<lparr>metrics := (metrics s)(m_name (heap s ! m) \<mapsto> m), sortedDirty := True\<rparr>"
  have e: "snd (Publish m s) = ?s" using False by (simp add: Publish_def Name_def)
  have "reg_ok ?s" using assms by (auto simp: inv_def reg_ok_def)
  moreover have "wire_ok ?s" using assms by (simp add: inv_def wire_ok_def)
  moreover have "cache_ok ?s" by (simp add: cache_ok_def)
  moreover have "names_ok ?s" using assms ne by (auto simp: inv_def names_ok_def)
  ultimately show ?thesis by (simp add: e inv_def)
qed

lemma inv_heap_v:
  assumes "inv s"
  shows "inv (s\<lparr>heap := (heap s)[m := (heap s ! m)\<lparr>m_v := x\<rparr>]\<rparr>)"
proof -
  let ?h = "(heap s)[m := (heap s ! m)\<lparr>m_v := x\<rparr>]"
  have n: "\<And>q. m_name (?h ! q) = m_name (heap s ! q)"
    by (cases "m < length (heap s)") (simp_all add: nth_list_update list_update_beyond)
  have w: "\<And>q. m_wireID (?h ! q) = m_wireID (heap s ! q)"
    by (cases "m < length (heap s)") (simp_all add: nth_list_update list_update_beyond)
  show ?thesis
    using assms by (simp add: inv_def reg_ok_def wire_ok_def cache_ok_def names_ok_def n w)
qed

lemma Add_inv: "inv s \<Longrightarrow> inv (Add m n s)"
  by (simp add: Add_def inv_heap_v)

lemma Set_inv: "inv s \<Longrightarrow> inv (Set m x s)"
  by (simp add: Set_def inv_heap_v)

lemma Metrics_inv:
  assumes "inv s" and "key_order order s"
  shows "inv (snd (Metrics order s))"
proof (cases "sortedDirty s")
  case False
  then show ?thesis using assms by (simp add: Metrics_def)
next
  case True
  have r: "reg_ok s" using assms by (simp add: inv_def)
  let ?l = "sort_key (\<lambda>m. m_name (heap s ! m)) (range_metrics order s)"
  have "cache_ok (s\<lparr>sortedDirty := False, sorted_slice := ?l\<rparr>)"
    using range_metrics_props(1,2) [OF r assms(2)]
    by (simp add: cache_ok_def)
  then show ?thesis
    using True assms by (simp add: Metrics_def Let_def inv_def reg_ok_def wire_ok_def names_ok_def)
qed

lemma init_inv: "inv init"
  by (simp add: inv_def init_def reg_ok_def wire_ok_def cache_ok_def names_ok_def)

lemma step_inv: "step s s' \<Longrightarrow> inv s \<Longrightarrow> inv s'"
  by (induction rule: step.induct)
     (simp_all add: new_Metric_inv NewUnpublished_inv Publish_inv Add_inv Set_inv Metrics_inv Encode_inv)

lemma steps_inv: "step\<^sup>*\<^sup>* s s' \<Longrightarrow> inv s \<Longrightarrow> inv s'"
  by (induction rule: rtranclp_induct) (auto intro: step_inv)

lemma reachable_inv: "reachable s \<Longrightarrow> inv s"
  unfolding reachable_def using steps_inv init_inv by blast

lemma Encode_limited: "limited now s \<Longrightarrow> EncodeLogTailMetricsDelta now order s = ([], s)"
  by (simp add: EncodeLogTailMetricsDelta_def limited_def)

lemma Encode_unlimited:
  "\<not> limited now s \<Longrightarrow>
   EncodeLogTailMetricsDelta now order s =
     (case encodeLoop now (range_metrics order s) (s\<lparr>lastDelta := now\<rparr>, None) of
        (s', enc) \<Rightarrow> (bufOf enc, s'))"
  by (auto simp: EncodeLogTailMetricsDelta_def limited_def Let_def split: prod.splits option.splits)

lemma Encode_scan:
  assumes "reg_ok s" and "key_order order s" and "\<not> limited now s"
  defines "ps \<equiv> range_metrics order s"
  defines "r \<equiv> EncodeLogTailMetricsDelta now order s"
  shows "map (nth (heap (snd r))) ps = map fst (visits now (numWireID s) (map (nth (heap s)) ps))"
    and "fst r = concat (map snd (visits now (numWireID s) (map (nth (heap s)) ps)))"
    and "numWireID (snd r) = foldl bump (numWireID s) (map (nth (heap s)) ps)"
    and "\<forall>q. q \<notin> set ps \<longrightarrow> heap (snd r) ! q = heap s ! q"
    and "length (heap (snd r)) = length (heap s)"
    and "metrics (snd r) = metrics s"
    and "lastDelta (snd r) = now"
    and "sortedDirty (snd r) = sortedDirty s"
    and "sorted_slice (snd r) = sorted_slice s"
proof -
  let ?s = "s\<lparr>lastDelta := now\<rparr>"
  obtain s' enc' where l: "encodeLoop now ps (?s, None) = (s', enc')"
    by (cases "encodeLoop now ps (?s, None)") simp
  have r: "r = (bufOf enc', s')"
    using Encode_unlimited [OF assms(3), of order] l by (simp add: r_def ps_def)
  have d: "distinct ps" and b: "\<forall>p\<in>set ps. p < length (heap ?s)"
    using range_metrics_props [OF assms(1,2)] by (simp_all add: ps_def)
  note E = encodeLoop_eq [OF d b l]
  show "map (nth (heap (snd r))) ps = map fst (visits now (numWireID s) (map (nth (heap s)) ps))"
    using E by (simp add: r)
  show "fst r = concat (map snd (visits now (numWireID s) (map (nth (heap s)) ps)))"
    using E by (simp add: r)
  show "numWireID (snd r) = foldl bump (numWireID s) (map (nth (heap s)) ps)"
    using E by (simp add: r)
  show "\<forall>q. q \<notin> set ps \<longrightarrow> heap (snd r) ! q = heap s ! q"
    using E by (simp add: r)
  show "length (heap (snd r)) = length (heap s)" using E by (simp add: r)
  show "metrics (snd r) = metrics s" using E by (simp add: r)
  show "lastDelta (snd r) = now" using E by (simp add: r)
  show "sortedDirty (snd r) = sortedDirty s" using E by (simp add: r)
  show "sorted_slice (snd r) = sorted_slice s" using E by (simp add: r)
qed

lemma visits_length [simp]: "length (visits now n ms) = length ms"
  by (induction ms arbitrary: n) simp_all

lemma foldl_bump: "foldl bump n ms = n + int (length (filter unassigned ms))"
  by (induction ms arbitrary: n) (simp_all add: bump_def)

lemma visits_nth:
  "i < length ms \<Longrightarrow>
   visits now n ms ! i =
     (visited now (n + int (length (filter unassigned (take i ms)))) (ms ! i),
      emitted now (n + int (length (filter unassigned (take i ms)))) (ms ! i))"
proof (induction ms arbitrary: n i)
  case Nil
  then show ?case by simp
next
  case (Cons m ms)
  show ?case
  proof (cases i)
    case 0
    then show ?thesis by simp
  next
    case (Suc j)
    then have "j < length ms" using Cons.prems by simp
    from Cons.IH [OF this, of "bump n m"] show ?thesis
      by (simp add: Suc bump_def add.assoc)
  qed
qed

lemma visited_not_pending [simp]: "\<not> pending (visited now n m)"
  by (simp add: pending_def)

lemma visits_fst_not_pending: "x \<in> set (visits now n ms) \<Longrightarrow> \<not> pending (fst x)"
  by (induction ms arbitrary: n) auto

lemma lastDelta_encodeMetric: "lastDelta (fst (encodeMetric now p (s, enc))) = lastDelta s"
  by (simp add: encodeMetric_def Let_def)

lemma lastDelta_encodeLoop: "lastDelta (fst (encodeLoop now ps (s, enc))) = lastDelta s"
proof (induction ps arbitrary: s enc)
  case Nil
  then show ?case by simp
next
  case (Cons p ps)
  obtain s1 enc1 where e: "encodeMetric now p (s, enc) = (s1, enc1)"
    by (cases "encodeMetric now p (s, enc)") simp
  have "lastDelta s1 = lastDelta s"
    using lastDelta_encodeMetric [of now p s enc] by (simp add: e)
  with Cons.IH [of s1 enc1] show ?case by (simp add: e)
qed

lemma Encode_lastDelta:
  assumes "\<not> limited now s"
  shows "lastDelta (snd (EncodeLogTailMetricsDelta now order s)) = now"
proof -
  obtain s' enc' where l: "encodeLoop now (range_metrics order s) (s\<lparr>lastDelta := now\<rparr>, None) = (s', enc')"
    by (cases "encodeLoop now (range_metrics order s) (s\<lparr>lastDelta := now\<rparr>, None)") simp
  have "lastDelta s' = now"
    using lastDelta_encodeLoop [of now "range_metrics order s" "s\<lparr>lastDelta := now\<rparr>" None]
    by (simp add: l)
  then show ?thesis by (simp add: Encode_unlimited [OF assms] l)
qed

text \<open>
  Claim C10. The first invocation of \<^verbatim>\<open>EncodeLogTailMetricsDelta\<close>, when
  \<^verbatim>\<open>lastDelta\<close> is still the zero time, is never rate-limited, whatever the
  time \<open>now\<close> is: the call is the scan of the registry from the state in which
  \<^verbatim>\<open>lastDelta\<close> is \<open>now\<close>, it leaves \<^verbatim>\<open>lastDelta = now\<close>, and afterwards no
  registered metric is pending.
\<close>

theorem first_invocation_not_limited:
  assumes "IsZero (lastDelta s)" and "reg_ok s" and "key_order order s"
  shows "EncodeLogTailMetricsDelta now order s =
           (case encodeLoop now (range_metrics order s) (s\<lparr>lastDelta := now\<rparr>, None) of
              (s', enc) \<Rightarrow> (bufOf enc, s'))
       \<and> lastDelta (snd (EncodeLogTailMetricsDelta now order s)) = now
       \<and> (\<forall>p\<in>ran (metrics s). \<not> pending (heap (snd (EncodeLogTailMetricsDelta now order s)) ! p))"
proof -
  have n: "\<not> limited now s" using assms(1) by (simp add: limited_def)
  note S = Encode_scan [OF assms(2,3) n]
  let ?ps = "range_metrics order s"
  let ?s' = "snd (EncodeLogTailMetricsDelta now order s)"
  have "\<not> pending (heap ?s' ! p)" if "p \<in> ran (metrics s)" for p
  proof -
    from that have "p \<in> set ?ps" using range_metrics_props(2) [OF assms(2,3)] by simp
    then have "heap ?s' ! p \<in> set (map (nth (heap ?s')) ?ps)" by simp
    then have "heap ?s' ! p \<in> fst ` set (visits now (numWireID s) (map (nth (heap s)) ?ps))"
      unfolding S(1) by simp
    then show ?thesis using visits_fst_not_pending by auto
  qed
  then show ?thesis using Encode_unlimited [OF n] S(7) by simp
qed

text \<open>
  Claim C3. An invocation less than 15 seconds (\<open>minMetricEncodeInterval\<close>)
  after the recorded last invocation returns the empty string and the state
  unchanged. Any other invocation sets \<^verbatim>\<open>lastDelta\<close> to \<open>now\<close> before the scan,
  whether or not the scan emits a record. Hence, after an invocation at \<open>now\<close>
  that was not limited, an invocation at \<open>now'\<close> less than 15 seconds later
  returns the empty string and changes nothing, whatever the metrics in the
  store \<open>h\<close> have become in between. (\<open>now\<close> is a reading of the clock, which is
  never the zero time.)
\<close>

theorem rate_limit:
  "(\<not> IsZero (lastDelta s) \<and> Sub now (lastDelta s) < minMetricEncodeInterval \<longrightarrow>
      EncodeLogTailMetricsDelta now order s = ([], s))
   \<and> (\<not> (\<not> IsZero (lastDelta s) \<and> Sub now (lastDelta s) < minMetricEncodeInterval) \<longrightarrow>
      lastDelta (snd (EncodeLogTailMetricsDelta now order s)) = now \<and>
      EncodeLogTailMetricsDelta now order s =
        (case encodeLoop now (range_metrics order s) (s\<lparr>lastDelta := now\<rparr>, None) of
           (s', enc) \<Rightarrow> (bufOf enc, s')))
   \<and> (\<not> (\<not> IsZero (lastDelta s) \<and> Sub now (lastDelta s) < minMetricEncodeInterval) \<and>
      \<not> IsZero now \<and> Sub now' now < minMetricEncodeInterval \<longrightarrow>
      EncodeLogTailMetricsDelta now' order'
          ((snd (EncodeLogTailMetricsDelta now order s))\<lparr>heap := h\<rparr>) =
        ([], (snd (EncodeLogTailMetricsDelta now order s))\<lparr>heap := h\<rparr>))"
proof (intro conjI impI)
  assume "\<not> IsZero (lastDelta s) \<and> Sub now (lastDelta s) < minMetricEncodeInterval"
  then show "EncodeLogTailMetricsDelta now order s = ([], s)"
    by (simp add: Encode_limited limited_def)
next
  assume a: "\<not> (\<not> IsZero (lastDelta s) \<and> Sub now (lastDelta s) < minMetricEncodeInterval)"
  then have n: "\<not> limited now s" by (simp add: limited_def)
  show "lastDelta (snd (EncodeLogTailMetricsDelta now order s)) = now"
    by (rule Encode_lastDelta [OF n])
  show "EncodeLogTailMetricsDelta now order s =
        (case encodeLoop now (range_metrics order s) (s\<lparr>lastDelta := now\<rparr>, None) of
           (s', enc) \<Rightarrow> (bufOf enc, s'))"
    by (rule Encode_unlimited [OF n])
next
  assume a: "\<not> (\<not> IsZero (lastDelta s) \<and> Sub now (lastDelta s) < minMetricEncodeInterval) \<and>
      \<not> IsZero now \<and> Sub now' now < minMetricEncodeInterval"
  then have n: "\<not> limited now s" by (simp add: limited_def)
  let ?s1 = "snd (EncodeLogTailMetricsDelta now order s)"
  have "lastDelta ?s1 = now"
    by (rule Encode_lastDelta [OF n])
  then have "limited now' (?s1\<lparr>heap := h\<rparr>)" using a by (simp add: limited_def)
  then show "EncodeLogTailMetricsDelta now' order' (?s1\<lparr>heap := h\<rparr>) = ([], ?s1\<lparr>heap := h\<rparr>)"
    by (rule Encode_limited)
qed

lemmas eval_defs = init_def NewCounter_def NewGauge_def NewUnpublished_def Publish_def Name_def Value_def
  Type_def Add_def Set_def TypeCounter_def TypeGauge_def isIllegalMetricRune_def
  EncodeLogTailMetricsDelta_def IsZero_def Sub_def minMetricEncodeInterval_def metricLogNameFrequency_def
  Second_def Hour_def maxDuration_def minDuration_def range_metrics_def List.map_filter_def
  encodeMetric_def writeName_def writeValue_def writeDelta_def writeHexVarint_def PutVarint_def
  PutUvarint.simps hextable_def word_sless_alt Let_def

lemma sc0_eq: "sc0 = \<lparr>heap = [\<lparr>m_v = 0, m_name = ''foo_total'', m_typ = 1, m_wireID = 0, m_lastNamed = 0, m_lastLogVal = 0\<rparr>],
    metrics = [''foo_total'' \<mapsto> 0], numWireID = 0, lastDelta = 0, sortedDirty = True, sorted_slice = []\<rparr>"
  by (simp add: sc0_def eval_defs)

lemma sc1_eq: "sc1 = \<lparr>heap = [\<lparr>m_v = 10, m_name = ''foo_total'', m_typ = 1, m_wireID = 0, m_lastNamed = 0, m_lastLogVal = 0\<rparr>],
    metrics = [''foo_total'' \<mapsto> 0], numWireID = 0, lastDelta = 0, sortedDirty = True, sorted_slice = []\<rparr>"
  by (simp add: sc1_def sc0_eq Add_def)

lemma r2: "EncodeLogTailMetricsDelta t0 [''foo_total''] sc1 = (''N12foo_totalS0214'',
   \<lparr>heap = [\<lparr>m_v = 10, m_name = ''foo_total'', m_typ = 1, m_wireID = 1, m_lastNamed = t0, m_lastLogVal = 10\<rparr>],
    metrics = [''foo_total'' \<mapsto> 0], numWireID = 1, lastDelta = t0, sortedDirty = True, sorted_slice = []\<rparr>)"
  by (simp add: sc1_eq eval_defs)


lemma sc2_eq: "sc2 = \<lparr>heap = [\<lparr>m_v = 10, m_name = ''foo_total'', m_typ = 1, m_wireID = 1, m_lastNamed = t0, m_lastLogVal = 10\<rparr>],
    metrics = [''foo_total'' \<mapsto> 0], numWireID = 1, lastDelta = t0, sortedDirty = True, sorted_slice = []\<rparr>"
  by (simp add: sc2_def r2)

lemma t0_pos: "0 < t0"
  by (simp add: t0_def Second_def)

lemma sc1_reg_ok: "reg_ok sc1"
  by (simp add: reg_ok_def sc1_eq)

lemma sc1_key_order: "key_order [''foo_total''] sc1"
  by (simp add: key_order_def sc1_eq)

theorem first_invocation_not_limited_witness:
  "IsZero (lastDelta sc1) \<and> reg_ok sc1 \<and> key_order [''foo_total''] sc1 \<and>
   pending (heap sc1 ! 0) \<and>
   lastDelta (snd (EncodeLogTailMetricsDelta t0 [''foo_total''] sc1)) = t0 \<and>
   \<not> pending (heap (snd (EncodeLogTailMetricsDelta t0 [''foo_total''] sc1)) ! 0)"
proof -
  have z: "IsZero (lastDelta sc1)" by (simp add: sc1_eq IsZero_def)
  have p: "pending (heap sc1 ! 0)" by (simp add: sc1_eq pending_def)
  have r: "0 \<in> ran (metrics sc1)" by (simp add: sc1_eq)
  from first_invocation_not_limited [OF z sc1_reg_ok sc1_key_order, of t0] r
  show ?thesis using z p sc1_reg_ok sc1_key_order by blast
qed

theorem rate_limit_witness:
  "\<not> (\<not> IsZero (lastDelta sc1) \<and> Sub t0 (lastDelta sc1) < minMetricEncodeInterval) \<and>
   \<not> IsZero t0 \<and> Sub (t0 + 14 * Second) t0 < minMetricEncodeInterval \<and>
   lastDelta sc2 = t0 \<and>
   pending (heap sc3 ! 0) \<and>
   EncodeLogTailMetricsDelta (t0 + 14 * Second) [''foo_total''] sc3 = ([], sc3)"
proof -
  have a: "\<not> (\<not> IsZero (lastDelta sc1) \<and> Sub t0 (lastDelta sc1) < minMetricEncodeInterval)"
    by (simp add: sc1_eq IsZero_def)
  have b: "\<not> IsZero t0" using t0_pos by (simp add: IsZero_def)
  have c: "Sub (t0 + 14 * Second) t0 < minMetricEncodeInterval"
    by (simp add: Sub_def minMetricEncodeInterval_def Second_def maxDuration_def minDuration_def)
  have e: "(snd (EncodeLogTailMetricsDelta t0 [''foo_total''] sc1))\<lparr>heap := heap sc3\<rparr> = sc3"
    by (simp add: sc3_def sc2_def Add_def)
  have p: "pending (heap sc3 ! 0)" by (simp add: sc3_def sc2_eq Add_def pending_def)
  note R = rate_limit [of sc1 t0 "[''foo_total'']" "t0 + 14 * Second" "[''foo_total'']" "heap sc3"]
  from R a have l: "lastDelta (snd (EncodeLogTailMetricsDelta t0 [''foo_total''] sc1)) = t0"
    by blast
  from R a b c have "EncodeLogTailMetricsDelta (t0 + 14 * Second) [''foo_total'']
      ((snd (EncodeLogTailMetricsDelta t0 [''foo_total''] sc1))\<lparr>heap := heap sc3\<rparr>) =
      ([], (snd (EncodeLogTailMetricsDelta t0 [''foo_total''] sc1))\<lparr>heap := heap sc3\<rparr>)"
    by blast
  then have r: "EncodeLogTailMetricsDelta (t0 + 14 * Second) [''foo_total''] sc3 = ([], sc3)"
    by (simp only: e)
  from l have "lastDelta sc2 = t0" by (simp only: sc2_def)
  then show ?thesis using a b c p r by blast
qed

lemma visited_emitted_unfold:
  assumes "pending m"
  shows "visited now n m =
           m\<lparr>m_lastLogVal := m_v m,
             m_wireID := (if m_wireID m = 0 then n + 1 else m_wireID m),
             m_lastNamed := (if IsZero (m_lastNamed m) \<or> Sub now (m_lastNamed m) > metricLogNameFrequency
                             then now else m_lastNamed m)\<rparr>"
    and "emitted now n m =
           (if IsZero (m_lastNamed m) \<or> Sub now (m_lastNamed m) > metricLogNameFrequency
            then writeValue (writeName [] (m_name m)) (m_wireID (visited now n m)) (m_v m)
            else writeDelta [] (m_wireID (visited now n m)) (m_v m - m_lastLogVal m))"
  using assms by (simp_all add: visited_def emitted_def needsName_def Let_def)

lemma not_pending_unfold:
  assumes "\<not> pending m"
  shows "visited now n m = m" and "emitted now n m = []"
  using assms by (simp_all add: visited_def emitted_def)

text \<open>
  Claim C1. One invocation of \<^verbatim>\<open>EncodeLogTailMetricsDelta\<close> that is not
  rate-limited, in a reachable state, visiting the registered names in the order
  \<open>order\<close>: the string returned is the concatenation of one piece \<open>recs ! i\<close> per
  metric, in the order of the visit. For a metric whose value equals
  \<^verbatim>\<open>lastLogVal\<close> the piece is empty and the metric is unchanged. For a metric
  whose value differs, \<^verbatim>\<open>lastLogVal\<close> becomes the value; a metric without a wire
  id gets the next one, \<open>k\<close>, which is \<open>numWireID + 1\<close> plus the number of ids
  handed out earlier in this visit, and the wire id is positive; if the metric
  was never named or was named more than \<open>metricLogNameFrequency\<close> (4 hours,
  in nanoseconds) ago, the piece is a name record followed by a value record
  with the value, and \<^verbatim>\<open>lastNamed\<close> becomes \<open>now\<close>; otherwise the piece is one
  increment record with the \<^verbatim>\<open>int64\<close> difference of the value and
  \<^verbatim>\<open>lastLogVal\<close>, and \<^verbatim>\<open>lastNamed\<close> stays.
\<close>

theorem encode_per_metric:
  assumes "reachable s" and "key_order order s" and "\<not> limited now s"
  shows "metricLogNameFrequency = 4 * 3600 * 1000000000 \<and>
    (\<exists>recs. length recs = length order \<and>
      fst (EncodeLogTailMetricsDelta now order s) = concat recs \<and>
      (\<forall>i<length order. \<exists>p. metrics s (order ! i) = Some p \<and>
         (let m = heap s ! p;
              m' = heap (snd (EncodeLogTailMetricsDelta now order s)) ! p;
              k = numWireID s + 1 +
                  int (length (filter (\<lambda>q. unassigned (heap s ! q)) (take i (range_metrics order s))));
              named = (IsZero (m_lastNamed m) \<or> Sub now (m_lastNamed m) > metricLogNameFrequency)
          in (m_v m = m_lastLogVal m \<longrightarrow> recs ! i = [] \<and> m' = m) \<and>
             (m_v m \<noteq> m_lastLogVal m \<longrightarrow>
                m' = m\<lparr>m_lastLogVal := m_v m,
                       m_wireID := (if m_wireID m = 0 then k else m_wireID m),
                       m_lastNamed := (if named then now else m_lastNamed m)\<rparr> \<and>
                0 < m_wireID m' \<and>
                recs ! i =
                  (if named then writeValue (writeName [] (m_name m)) (m_wireID m') (m_v m)
                   else writeDelta [] (m_wireID m') (m_v m - m_lastLogVal m))))))"
proof -
  have I: "reg_ok s" "wire_ok s" using reachable_inv [OF assms(1)] by (simp_all add: inv_def)
  let ?ps = "range_metrics order s"
  let ?ms = "map (nth (heap s)) ?ps"
  let ?n = "numWireID s"
  let ?r = "EncodeLogTailMetricsDelta now order s"
  let ?recs = "map snd (visits now ?n ?ms)"
  note S = Encode_scan [OF I(1) assms(2,3)]
  have ps: "?ps = map (\<lambda>k. the (metrics s k)) order"
    by (rule range_metrics_key_order [OF assms(2)])
  have len: "length ?ps = length order" by (simp add: ps)
  have per: "\<exists>p. metrics s (order ! i) = Some p \<and>
         (let m = heap s ! p;
              m' = heap (snd ?r) ! p;
              k = ?n + 1 + int (length (filter (\<lambda>q. unassigned (heap s ! q)) (take i ?ps)));
              named = (IsZero (m_lastNamed m) \<or> Sub now (m_lastNamed m) > metricLogNameFrequency)
          in (m_v m = m_lastLogVal m \<longrightarrow> ?recs ! i = [] \<and> m' = m) \<and>
             (m_v m \<noteq> m_lastLogVal m \<longrightarrow>
                m' = m\<lparr>m_lastLogVal := m_v m,
                       m_wireID := (if m_wireID m = 0 then k else m_wireID m),
                       m_lastNamed := (if named then now else m_lastNamed m)\<rparr> \<and>
                0 < m_wireID m' \<and>
                ?recs ! i =
                  (if named then writeValue (writeName [] (m_name m)) (m_wireID m') (m_v m)
                   else writeDelta [] (m_wireID m') (m_v m - m_lastLogVal m))))"
    if i: "i < length order" for i
  proof -
    have "order ! i \<in> dom (metrics s)" using i assms(2) by (auto simp: key_order_def)
    then obtain p where p: "metrics s (order ! i) = Some p" by auto
    have pi: "?ps ! i = p" using i p by (simp add: ps)
    have pl: "p < length (heap s)" using I(1) p by (auto simp: reg_ok_def)
    define c where "c = ?n + int (length (filter (\<lambda>q. unassigned (heap s ! q)) (take i ?ps)))"
    have cnt: "length (filter unassigned (take i ?ms)) =
               length (filter (\<lambda>q. unassigned (heap s ! q)) (take i ?ps))"
      by (simp add: take_map filter_map comp_def)
    have il: "i < length ?ms" using i len by simp
    have v: "visits now ?n ?ms ! i = (visited now c (heap s ! p), emitted now c (heap s ! p))"
      using visits_nth [OF il, of now ?n] il by (simp add: cnt c_def pi)
    have "heap (snd ?r) ! p = map (nth (heap (snd ?r))) ?ps ! i"
      using i len by (simp add: pi)
    also have "\<dots> = fst (visits now ?n ?ms ! i)"
      unfolding S(1) using il by simp
    finally have h': "heap (snd ?r) ! p = visited now c (heap s ! p)" by (simp add: v)
    have rec: "?recs ! i = emitted now c (heap s ! p)" using il by (simp add: v)
    have c0: "0 \<le> c" using I(2) by (simp add: c_def wire_ok_def)
    have w0: "0 \<le> m_wireID (heap s ! p)" using I(2) pl by (simp add: wire_ok_def)
    have pos: "0 < m_wireID (visited now c (heap s ! p))" if "pending (heap s ! p)"
      using that c0 w0 by (simp add: visited_wireID unassigned_def)
    have body: "(let m = heap s ! p;
              m' = heap (snd ?r) ! p;
              k = ?n + 1 + int (length (filter (\<lambda>q. unassigned (heap s ! q)) (take i ?ps)));
              named = (IsZero (m_lastNamed m) \<or> Sub now (m_lastNamed m) > metricLogNameFrequency)
          in (m_v m = m_lastLogVal m \<longrightarrow> ?recs ! i = [] \<and> m' = m) \<and>
             (m_v m \<noteq> m_lastLogVal m \<longrightarrow>
                m' = m\<lparr>m_lastLogVal := m_v m,
                       m_wireID := (if m_wireID m = 0 then k else m_wireID m),
                       m_lastNamed := (if named then now else m_lastNamed m)\<rparr> \<and>
                0 < m_wireID m' \<and>
                ?recs ! i =
                  (if named then writeValue (writeName [] (m_name m)) (m_wireID m') (m_v m)
                   else writeDelta [] (m_wireID m') (m_v m - m_lastLogVal m))))"
    proof (cases "pending (heap s ! p)")
      case False
      then have "m_v (heap s ! p) = m_lastLogVal (heap s ! p)" by (simp add: pending_def)
      then show ?thesis
        unfolding Let_def h' rec
        using not_pending_unfold [OF False, of now c] by simp
    next
      case True
      then have ne: "m_v (heap s ! p) \<noteq> m_lastLogVal (heap s ! p)" by (simp add: pending_def)
      have k: "?n + 1 + int (length (filter (\<lambda>q. unassigned (heap s ! q)) (take i ?ps))) = c + 1"
        by (simp add: c_def)
      note U = visited_emitted_unfold [OF True, of now c]
      show ?thesis
        unfolding Let_def h' rec k
        using ne pos [OF True] U(1) U(2) by simp
    qed
    show ?thesis using p body by blast
  qed
  have "length ?recs = length order" by (simp add: len)
  moreover have "fst ?r = concat ?recs" using S(2) by simp
  ultimately have "\<exists>recs. length recs = length order \<and> fst ?r = concat recs \<and>
      (\<forall>i<length order. \<exists>p. metrics s (order ! i) = Some p \<and>
         (let m = heap s ! p;
              m' = heap (snd ?r) ! p;
              k = ?n + 1 + int (length (filter (\<lambda>q. unassigned (heap s ! q)) (take i ?ps)));
              named = (IsZero (m_lastNamed m) \<or> Sub now (m_lastNamed m) > metricLogNameFrequency)
          in (m_v m = m_lastLogVal m \<longrightarrow> recs ! i = [] \<and> m' = m) \<and>
             (m_v m \<noteq> m_lastLogVal m \<longrightarrow>
                m' = m\<lparr>m_lastLogVal := m_v m,
                       m_wireID := (if m_wireID m = 0 then k else m_wireID m),
                       m_lastNamed := (if named then now else m_lastNamed m)\<rparr> \<and>
                0 < m_wireID m' \<and>
                recs ! i =
                  (if named then writeValue (writeName [] (m_name m)) (m_wireID m') (m_v m)
                   else writeDelta [] (m_wireID m') (m_v m - m_lastLogVal m)))))"
    using per by (intro exI [of _ ?recs]) blast
  moreover have "metricLogNameFrequency = 4 * 3600 * 1000000000"
    by (simp add: metricLogNameFrequency_def Hour_def Second_def)
  ultimately show ?thesis by blast
qed

lemma reachable_init: "reachable init"
  by (simp add: reachable_def)

lemma reachable_step: "reachable s \<Longrightarrow> step s s' \<Longrightarrow> reachable s'"
  by (simp add: reachable_def)

lemma NewUnpublished_Inr:
  "NewUnpublished name typ s = (Inr m, s') \<Longrightarrow>
   m = length (heap s) \<and> length (heap s') = Suc (length (heap s)) \<and> legal_name name \<and>
   s' = s\<lparr>heap := heap s @ [\<lparr>m_v = 0, m_name = name, m_typ = typ, m_wireID = 0,
                               m_lastNamed = 0, m_lastLogVal = 0\<rparr>]\<rparr>"
  by (auto simp: NewUnpublished_def Let_def legal_name_def IndexFunc_none split: if_splits)

lemma NewUnpublished_Inl:
  "NewUnpublished name typ s = (Inl e, s') \<Longrightarrow> s' = s \<and> \<not> legal_name name"
  by (auto simp: NewUnpublished_def Let_def legal_name_def IndexFunc_none split: if_splits)

lemma register_snd:
  "snd (case NewUnpublished name typ s of
          (Inl e, s') \<Rightarrow> (Inl e, s')
        | (Inr m, s') \<Rightarrow>
            (case Publish m s' of
               (Inl e, s'') \<Rightarrow> (Inl e, s'')
             | (Inr _, s'') \<Rightarrow> (Inr m, s''))) =
   (case NewUnpublished name typ s of
      (Inl e, s') \<Rightarrow> s'
    | (Inr m, s') \<Rightarrow> snd (Publish m s'))"
  by (auto split: prod.splits sum.splits)

lemma reachable_register:
  assumes "reachable s"
  shows "reachable (case NewUnpublished name typ s of
      (Inl e, s') \<Rightarrow> s'
    | (Inr m, s') \<Rightarrow> snd (Publish m s'))"
proof (cases "NewUnpublished name typ s")
  case (Pair r s')
  have r1: "reachable s'"
    using reachable_step [OF assms step_NewUnpublished [of s name "typ"]] by (simp add: Pair)
  show ?thesis
  proof (cases r)
    case (Inl e)
    then show ?thesis using r1 by (simp add: Pair)
  next
    case (Inr m)
    then have "m < length (heap s')" using NewUnpublished_Inr [of name "typ" s m "s'"] Pair by simp
    then show ?thesis
      using reachable_step [OF r1 step_Publish] by (simp add: Pair Inr)
  qed
qed

lemma reachable_NewCounter: "reachable s \<Longrightarrow> reachable (snd (NewCounter name s))"
  unfolding NewCounter_def register_snd by (rule reachable_register)

lemma reachable_NewGauge: "reachable s \<Longrightarrow> reachable (snd (NewGauge name s))"
  unfolding NewGauge_def register_snd by (rule reachable_register)

lemma reachable_Add: "reachable s \<Longrightarrow> m < length (heap s) \<Longrightarrow> reachable (Add m n s)"
  by (erule reachable_step) (rule step_Add)

lemma reachable_Set: "reachable s \<Longrightarrow> m < length (heap s) \<Longrightarrow> reachable (Set m x s)"
  by (erule reachable_step) (rule step_Set)

lemma reachable_Encode:
  "reachable s \<Longrightarrow> key_order order s \<Longrightarrow> reachable (snd (EncodeLogTailMetricsDelta now order s))"
  by (erule reachable_step) (rule step_Encode)

lemma reachable_Metrics:
  "reachable s \<Longrightarrow> key_order order s \<Longrightarrow> reachable (snd (Metrics order s))"
  by (erule reachable_step) (rule step_Metrics)

lemma sc0_reachable: "reachable sc0"
  unfolding sc0_def by (rule reachable_NewCounter [OF reachable_init])

lemma sc1_reachable: "reachable sc1"
  unfolding sc1_def by (rule reachable_Add [OF sc0_reachable]) (simp add: sc0_eq)

lemma sc2_reachable: "reachable sc2"
  unfolding sc2_def by (rule reachable_Encode [OF sc1_reachable sc1_key_order])

lemma sc3_eq: "sc3 = \<lparr>heap = [\<lparr>m_v = 6, m_name = ''foo_total'', m_typ = 1, m_wireID = 1, m_lastNamed = t0, m_lastLogVal = 10\<rparr>],
    metrics = [''foo_total'' \<mapsto> 0], numWireID = 1, lastDelta = t0, sortedDirty = True, sorted_slice = []\<rparr>"
  by (simp add: sc3_def sc2_eq Add_def)

lemma sc3_reachable: "reachable sc3"
  unfolding sc3_def by (rule reachable_Add [OF sc2_reachable]) (simp add: sc2_eq)

lemma sc3_key_order: "key_order [''foo_total''] sc3"
  by (simp add: key_order_def sc3_eq)

lemma sc3_not_limited: "\<not> limited (t0 + 15 * Second) sc3"
  by (simp add: limited_def sc3_eq Sub_def minMetricEncodeInterval_def maxDuration_def minDuration_def Second_def)

theorem encode_per_metric_witness:
  "reachable sc1 \<and> key_order [''foo_total''] sc1 \<and> \<not> limited t0 sc1 \<and>
   fst (EncodeLogTailMetricsDelta t0 [''foo_total''] sc1) = ''N12foo_totalS0214'' \<and>
   m_lastLogVal (heap sc2 ! 0) = 10 \<and> m_wireID (heap sc2 ! 0) = 1 \<and> m_lastNamed (heap sc2 ! 0) = t0 \<and>
   reachable sc3 \<and> key_order [''foo_total''] sc3 \<and> \<not> limited (t0 + 15 * Second) sc3 \<and>
   fst (EncodeLogTailMetricsDelta (t0 + 15 * Second) [''foo_total''] sc3) = ''I0207'' \<and>
   m_lastLogVal (heap sc4 ! 0) = 6 \<and> m_wireID (heap sc4 ! 0) = 1 \<and> m_lastNamed (heap sc4 ! 0) = t0"
proof -
  have n1: "\<not> limited t0 sc1" by (simp add: limited_def sc1_eq IsZero_def)
  from encode_per_metric [OF sc1_reachable sc1_key_order n1]
  obtain recs where r: "length recs = 1"
      "fst (EncodeLogTailMetricsDelta t0 [''foo_total''] sc1) = concat recs"
    and b: "\<exists>p. metrics sc1 ([''foo_total''] ! 0) = Some p \<and>
         (let m = heap sc1 ! p;
              m' = heap (snd (EncodeLogTailMetricsDelta t0 [''foo_total''] sc1)) ! p;
              k = numWireID sc1 + 1 +
                  int (length (filter (\<lambda>q. unassigned (heap sc1 ! q)) (take 0 (range_metrics [''foo_total''] sc1))));
              named = (IsZero (m_lastNamed m) \<or> Sub t0 (m_lastNamed m) > metricLogNameFrequency)
          in (m_v m = m_lastLogVal m \<longrightarrow> recs ! 0 = [] \<and> m' = m) \<and>
             (m_v m \<noteq> m_lastLogVal m \<longrightarrow>
                m' = m\<lparr>m_lastLogVal := m_v m,
                       m_wireID := (if m_wireID m = 0 then k else m_wireID m),
                       m_lastNamed := (if named then t0 else m_lastNamed m)\<rparr> \<and>
                0 < m_wireID m' \<and>
                recs ! 0 =
                  (if named then writeValue (writeName [] (m_name m)) (m_wireID m') (m_v m)
                   else writeDelta [] (m_wireID m') (m_v m - m_lastLogVal m))))"
    by auto
  from r(1) obtain x where x: "recs = [x]" by (cases recs) auto
  from b have h1: "heap sc2 ! 0 = \<lparr>m_v = 10, m_name = ''foo_total'', m_typ = 1, m_wireID = 1,
         m_lastNamed = t0, m_lastLogVal = 10\<rparr>"
    and x1: "x = writeValue (writeName [] ''foo_total'') 1 10"
    unfolding sc2_def [symmetric] by (simp_all add: sc1_eq x IsZero_def Let_def)
  have o1: "fst (EncodeLogTailMetricsDelta t0 [''foo_total''] sc1) = ''N12foo_totalS0214''"
    unfolding r(2) x x1 by (simp add: eval_defs)
  from encode_per_metric [OF sc3_reachable sc3_key_order sc3_not_limited]
  obtain recs' where r': "length recs' = 1"
      "fst (EncodeLogTailMetricsDelta (t0 + 15 * Second) [''foo_total''] sc3) = concat recs'"
    and b': "\<exists>p. metrics sc3 ([''foo_total''] ! 0) = Some p \<and>
         (let m = heap sc3 ! p;
              m' = heap (snd (EncodeLogTailMetricsDelta (t0 + 15 * Second) [''foo_total''] sc3)) ! p;
              k = numWireID sc3 + 1 +
                  int (length (filter (\<lambda>q. unassigned (heap sc3 ! q)) (take 0 (range_metrics [''foo_total''] sc3))));
              named = (IsZero (m_lastNamed m) \<or> Sub (t0 + 15 * Second) (m_lastNamed m) > metricLogNameFrequency)
          in (m_v m = m_lastLogVal m \<longrightarrow> recs' ! 0 = [] \<and> m' = m) \<and>
             (m_v m \<noteq> m_lastLogVal m \<longrightarrow>
                m' = m\<lparr>m_lastLogVal := m_v m,
                       m_wireID := (if m_wireID m = 0 then k else m_wireID m),
                       m_lastNamed := (if named then t0 + 15 * Second else m_lastNamed m)\<rparr> \<and>
                0 < m_wireID m' \<and>
                recs' ! 0 =
                  (if named then writeValue (writeName [] (m_name m)) (m_wireID m') (m_v m)
                   else writeDelta [] (m_wireID m') (m_v m - m_lastLogVal m))))"
    by auto
  from r'(1) obtain y where y: "recs' = [y]" by (cases recs') auto
  have nn: "\<not> (IsZero t0 \<or> Sub (t0 + 15 * Second) t0 > metricLogNameFrequency)"
    using t0_pos by (simp add: IsZero_def Sub_def metricLogNameFrequency_def Hour_def Second_def
        maxDuration_def minDuration_def)
  from b' nn have h2: "heap sc4 ! 0 = \<lparr>m_v = 6, m_name = ''foo_total'', m_typ = 1, m_wireID = 1,
         m_lastNamed = t0, m_lastLogVal = 6\<rparr>"
    and y1: "y = writeDelta [] 1 (6 - 10)"
    unfolding sc4_def [symmetric] by (simp_all add: sc3_eq y Let_def)
  have o2: "fst (EncodeLogTailMetricsDelta (t0 + 15 * Second) [''foo_total''] sc3) = ''I0207''"
    unfolding r'(2) y y1 by (simp add: eval_defs)
  show ?thesis
    using sc1_reachable sc1_key_order n1 o1 h1 sc3_reachable sc3_key_order sc3_not_limited o2 h2
    by simp
qed

subsection \<open>The wire format\<close>

lemma less_16_cases:
  "(d::nat) < 16 \<Longrightarrow> d = 0 \<or> d = 1 \<or> d = 2 \<or> d = 3 \<or> d = 4 \<or> d = 5 \<or> d = 6 \<or> d = 7
    \<or> d = 8 \<or> d = 9 \<or> d = 10 \<or> d = 11 \<or> d = 12 \<or> d = 13 \<or> d = 14 \<or> d = 15"
  by arith

lemma hextable_digit: "d < 16 \<Longrightarrow> hextable ! d = spec_hex_digit d"
  by (drule less_16_cases, elim disjE)
     (simp_all add: hextable_def spec_hex_digit_def char_of_def bit_simps)

lemma byte_hi: "unat (drop_bit 4 (v :: byte)) = unat v div 16"
  by (simp add: drop_bit_eq_div unat_div)

lemma byte_lo: "unat ((v :: byte) AND 0x0f) = unat v mod 16"
proof -
  have "(0x0f :: byte) = mask 4" by (simp add: mask_eq_exp_minus_1)
  then have "v AND 0x0f = take_bit 4 v" by (simp add: take_bit_eq_mask)
  then show ?thesis by (simp add: take_bit_eq_mod unat_mod)
qed

lemma byte_div16: "unat (v :: byte) div 16 < 16"
  using unsigned_less [of v, where 'a = nat] by simp

lemma hex_Encode_spec: "hex_Encode bs = concat (map spec_hex_byte bs)"
proof (induction bs)
  case Nil
  then show ?case by simp
next
  case (Cons v bs)
  then show ?case
    using byte_div16 [of v] by (simp add: byte_hi byte_lo hextable_digit spec_hex_byte_def)
qed

lemma bit128: "n < 8 \<Longrightarrow> bit (128::byte) n \<longleftrightarrow> n = 7"
proof -
  assume "n < 8"
  then consider "n = 0" | "n = 1" | "n = 2" | "n = 3" | "n = 4" | "n = 5" | "n = 6" | "n = 7"
    by arith
  then show ?thesis by cases simp_all
qed

lemma continuation_byte: "(ucast (x::uint64) OR 0x80 :: byte) = of_nat (unat x mod 128 + 128)"
proof -
  let ?y = "ucast x :: byte"
  have 1: "(of_nat (unat x mod 128) :: byte) = take_bit 7 ?y"
  proof -
    have "?y = of_nat (unat x)" by simp
    then have "take_bit 7 ?y = of_nat (take_bit 7 (unat x))"
      by (simp only: take_bit_of_nat)
    then show ?thesis by (simp add: take_bit_eq_mod)
  qed
  have 2: "take_bit 7 ?y AND 128 = 0"
  proof (rule bit_word_eqI)
    fix n assume "n < LENGTH(8)"
    then have "n < 8" by simp
    from bit128 [OF this] show "bit (take_bit 7 ?y AND 128) n \<longleftrightarrow> bit (0::byte) n"
      by (simp add: bit_and_iff bit_take_bit_iff)
  qed
  have 3: "?y OR 128 = take_bit 7 ?y OR 128"
  proof (rule bit_word_eqI)
    fix n assume "n < LENGTH(8)"
    then have n: "n < 8" by simp
    then have "n < 7 \<or> n = 7" by arith
    with bit128 [OF n] show "bit (?y OR 128) n \<longleftrightarrow> bit (take_bit 7 ?y OR 128) n"
      by (auto simp add: bit_or_iff bit_take_bit_iff)
  qed
  have "of_nat (unat x mod 128 + 128) = (of_nat (unat x mod 128) :: byte) + 128"
    by simp
  also have "\<dots> = take_bit 7 ?y + 128" by (simp only: 1)
  also have "\<dots> = take_bit 7 ?y OR 128" by (rule disjunctive_add_eq_or [OF 2])
  also have "\<dots> = ?y OR 128" by (simp only: 3)
  finally show ?thesis by simp
qed

lemma PutUvarint_spec: "PutUvarint x = spec_base128 (unat x)"
proof (induction x rule: PutUvarint.induct)
  case (1 x)
  show ?case
  proof (cases "x \<ge> 0x80")
    case False
    then have "unat x < 128" by (simp add: word_le_nat_alt)
    then show ?thesis
      using False by (simp add: PutUvarint.simps [of x] spec_base128.simps [of "unat x"])
  next
    case True
    then have g: "\<not> unat x < 128" by (simp add: word_le_nat_alt)
    have d: "unat (drop_bit 7 x) = unat x div 128"
      by (simp add: drop_bit_eq_div unat_div)
    have "PutUvarint x = (ucast x OR 0x80) # PutUvarint (drop_bit 7 x)"
      using True by (subst PutUvarint.simps) simp
    also have "\<dots> = of_nat (unat x mod 128 + 128) # spec_base128 (unat x div 128)"
      using 1 [OF True] by (simp only: continuation_byte d)
    also have "\<dots> = spec_base128 (unat x)"
      using g by (subst (2) spec_base128.simps) simp
    finally show ?thesis .
  qed
qed

lemma zigzag_spec:
  "unat (if x <s 0 then NOT (push_bit 1 x) else push_bit 1 (x :: int64)) = nat (spec_zigzag (sint x))"
proof -
  define k where "k = sint x"
  have lo: "- (2 ^ 63) \<le> k" using sint_greater_eq [of x] by (simp add: k_def)
  have hi: "k < 2 ^ 63" using sint_less [of x] by (simp add: k_def)
  have p: "push_bit 1 x = (word_of_int (2 * k) :: int64)"
    unfolding k_def by (simp add: push_bit_eq_mult)
  have n: "NOT (push_bit 1 x) = (word_of_int (- 2 * k - 1) :: int64)"
    unfolding p by (simp add: not_eq_complement)
  have u: "\<And>j. unat (word_of_int j :: int64) = nat (j mod 2 ^ 64)"
    unfolding unat_eq_nat_uint uint_word_of_int by simp
  have pos: "unat (push_bit 1 x) = nat ((2 * k) mod 2 ^ 64)" by (simp only: p u)
  have neg: "unat (NOT (push_bit 1 x)) = nat ((- 2 * k - 1) mod 2 ^ 64)" by (simp only: n u)
  show ?thesis
  proof (cases "0 \<le> k")
    case True
    then have c: "\<not> x <s 0" by (simp add: word_sless_alt k_def)
    have "(2 * k) mod 2 ^ 64 = 2 * k" using True hi by simp
    with pos have "unat (push_bit 1 x) = nat (2 * k)" by (simp only:)
    then show ?thesis using True c by (simp only: spec_zigzag_def k_def [symmetric] if_True if_False)
  next
    case False
    then have c: "x <s 0" by (simp add: word_sless_alt k_def)
    have "(- 2 * k - 1) mod 2 ^ 64 = - 2 * k - 1" using False lo by simp
    with neg have "unat (NOT (push_bit 1 x)) = nat (- 2 * k - 1)" by (simp only:)
    then show ?thesis using False c by (simp only: spec_zigzag_def k_def [symmetric] if_True if_False)
  qed
qed

lemma PutVarint_spec: "PutVarint x = spec_base128 (nat (spec_zigzag (sint x)))"
  by (simp only: PutVarint_def Let_def PutUvarint_spec zigzag_spec)

lemma writeHexVarint_spec: "writeHexVarint buf x = buf @ spec_hexvarint x"
  by (simp add: writeHexVarint_def spec_hexvarint_def hex_Encode_spec PutVarint_spec)

lemma spec_hex_digit_table: "d < 16 \<Longrightarrow> spec_hex_digit d \<in> set hextable"
proof -
  assume d: "d < 16"
  then have "hextable ! d \<in> set hextable" by (intro nth_mem) (simp add: hextable_def)
  then show ?thesis using hextable_digit [OF d] by simp
qed

lemma spec_hex_byte_chars: "set (spec_hex_byte b) \<subseteq> set hextable"
proof -
  have "unat b mod 16 < 16" by simp
  then show ?thesis
    using byte_div16 [of b] by (simp add: spec_hex_byte_def spec_hex_digit_table)
qed

lemma writeName_spec:
  "writeName buf name = buf @ ''N'' @ spec_hexvarint (of_nat (length name)) @ name"
  by (simp add: writeName_def writeHexVarint_spec)

text \<open>
  Claim C2. The wire format, byte by byte. A name record is \<open>N\<close>, the
  hex-encoded signed varint of the length of the name, and the name as it is. A
  value record is \<open>S\<close>, the hex-encoded signed varint of the wire id, and that of
  the value. An increment record is \<open>I\<close>, the hex-encoded signed varint of the
  wire id, and that of the difference. Here the signed varint (\<open>spec_hexvarint\<close>)
  is the zigzag code of the number, written in base 128 with continuation bits,
  and each of its bytes is rendered as exactly two characters, both lowercase
  hexadecimal digits (the characters of \<open>hextable\<close>).
\<close>

theorem wire_format:
  "writeName buf name = buf @ ''N'' @ spec_hexvarint (of_nat (length name)) @ name \<and>
   writeValue buf wireID v = buf @ ''S'' @ spec_hexvarint (word_of_int wireID) @ spec_hexvarint v \<and>
   writeDelta buf wireID d = buf @ ''I'' @ spec_hexvarint (word_of_int wireID) @ spec_hexvarint d \<and>
   hex_Encode (PutVarint v) = spec_hexvarint v \<and>
   length (spec_hex_byte b) = 2 \<and>
   set (spec_hex_byte b) \<subseteq> set hextable \<and>
   hextable = ''0123456789abcdef''"
proof (intro conjI)
  show "writeName buf name = buf @ ''N'' @ spec_hexvarint (of_nat (length name)) @ name"
    by (rule writeName_spec)
  show "writeValue buf wireID v = buf @ ''S'' @ spec_hexvarint (word_of_int wireID) @ spec_hexvarint v"
    by (simp add: writeValue_def writeHexVarint_spec)
  show "writeDelta buf wireID d = buf @ ''I'' @ spec_hexvarint (word_of_int wireID) @ spec_hexvarint d"
    by (simp add: writeDelta_def writeHexVarint_spec)
  show "hex_Encode (PutVarint v) = spec_hexvarint v"
    using writeHexVarint_spec [of "[]" v] by (simp add: writeHexVarint_def)
  show "length (spec_hex_byte b) = 2"
    by (simp add: spec_hex_byte_def)
  show "set (spec_hex_byte b) \<subseteq> set hextable"
    by (rule spec_hex_byte_chars)
  show "hextable = ''0123456789abcdef''"
    by (rule hextable_def)
qed

theorem wire_format_witness:
  "writeName [] ''foo_total'' = ''N12foo_total'' \<and>
   writeValue [] 1 10 = ''S0214'' \<and>
   writeDelta [] 1 (- 4) = ''I0207'' \<and>
   writeValue [] 300 (- 9223372036854775808) = ''Sd804ffffffffffffffffff01''"
proof -
  have z: "spec_hexvarint 9 = ''12''" "spec_hexvarint 1 = ''02''" "spec_hexvarint 10 = ''14''"
    "spec_hexvarint (- 4) = ''07''" "spec_hexvarint 300 = ''d804''"
    "spec_hexvarint (- 9223372036854775808) = ''ffffffffffffffffff01''"
    by (simp_all add: spec_hexvarint_def spec_zigzag_def spec_base128.simps spec_hex_byte_def
        spec_hex_digit_def char_of_def bit_simps)
  show ?thesis
    using wire_format [of "[]" "''foo_total''" 1 10 10 0]
      wire_format [of "[]" "[]" 1 10 "- 4" 0]
      wire_format [of "[]" "[]" 300 "- 9223372036854775808" 0 0]
    by (simp add: z)
qed

subsection \<open>The alphabet of a frame\<close>

lemma hex_Encode_chars: "set (hex_Encode bs) \<subseteq> set hextable"
  unfolding hex_Encode_spec using spec_hex_byte_chars by auto

lemma writeHexVarint_chars:
  "set (writeHexVarint buf x) \<subseteq> set buf \<union> set hextable"
  using hex_Encode_chars [of "PutVarint x"] by (auto simp: writeHexVarint_def)

lemma spec_hexvarint_chars: "set (spec_hexvarint x) \<subseteq> set hextable"
  using writeHexVarint_chars [of "[]" x] by (simp add: writeHexVarint_spec)

lemma emitted_chars:
  "set (emitted now n m) \<subseteq> {CHR ''N'', CHR ''S'', CHR ''I''} \<union> set hextable \<union> set (m_name m)"
proof -
  note h = spec_hexvarint_chars
  have w: "set (writeValue (writeName [] (m_name m)) w v) \<subseteq>
      {CHR ''N'', CHR ''S'', CHR ''I''} \<union> set hextable \<union> set (m_name m)" for w v
    using h [of "of_nat (length (m_name m))"] h [of "word_of_int w"] h [of v]
    unfolding writeValue_def writeName_def writeHexVarint_spec
    by (simp add: subset_iff)
  have d: "set (writeDelta [] w v) \<subseteq>
      {CHR ''N'', CHR ''S'', CHR ''I''} \<union> set hextable \<union> set (m_name m)" for w v
    using h [of "word_of_int w"] h [of v]
    unfolding writeDelta_def writeHexVarint_spec
    by (simp add: subset_iff)
  show ?thesis
  proof (cases "pending m")
    case False
    then show ?thesis by (simp add: emitted_def)
  next
    case True
    show ?thesis
    proof (cases "needsName now m")
      case True
      with \<open>pending m\<close> w show ?thesis by (simp only: emitted_def Let_def if_True)
    next
      case False
      with \<open>pending m\<close> d show ?thesis by (simp only: emitted_def Let_def if_True if_False)
    qed
  qed
qed

lemma visits_snd:
  "x \<in> set (visits now n ms) \<Longrightarrow> \<exists>m\<in>set ms. \<exists>n'. snd x = emitted now n' m"
  by (induction ms arbitrary: n) auto

lemma char_safe_code:
  assumes "of_char c \<in> {48..57} \<union> {65..90} \<union> {95} \<union> {97..122 :: nat}"
  shows "c \<noteq> CHR 0x22 \<and> c \<noteq> CHR 0x5C \<and> \<not> of_char c < (0x20 :: nat) \<and> of_char c \<noteq> (0x7F :: nat)"
proof -
  have "of_char c \<noteq> (34 :: nat)" "of_char c \<noteq> (92 :: nat)" using assms by auto
  moreover have "of_char (CHR 0x22) = (34 :: nat)" "of_char (CHR 0x5C) = (92 :: nat)" by simp_all
  ultimately have "c \<noteq> CHR 0x22" "c \<noteq> CHR 0x5C" by metis+
  then show ?thesis using assms by auto
qed

lemma legal_char_code:
  assumes "\<not> isIllegalMetricRune c"
  shows "of_char c \<in> {48..57} \<union> {65..90} \<union> {95} \<union> {97..122 :: nat}"
proof -
  have u: "of_char (CHR ''_'') = (95 :: nat)" by simp
  from assms have "97 \<le> (of_char c :: nat) \<and> (of_char c :: nat) \<le> 122 \<or>
      65 \<le> (of_char c :: nat) \<and> (of_char c :: nat) \<le> 90 \<or>
      48 \<le> (of_char c :: nat) \<and> (of_char c :: nat) \<le> 57 \<or> c = CHR ''_''"
    by (simp add: isIllegalMetricRune_def less_eq_char_def)
  then show ?thesis using u by auto
qed

lemma hextable_code:
  assumes "c \<in> set hextable"
  shows "of_char c \<in> {48..57} \<union> {65..90} \<union> {95} \<union> {97..122 :: nat}"
proof -
  from assms obtain d where "d < length hextable" and c: "c = hextable ! d"
    by (auto simp: in_set_conv_nth)
  then have d: "d < 16" by (simp add: hextable_def)
  from less_16_cases [OF d] show ?thesis
    unfolding c by (elim disjE) (simp_all add: hextable_def)
qed

lemma frame_char_safe:
  assumes "frame_char c"
  shows "c \<noteq> CHR 0x22 \<and> c \<noteq> CHR 0x5C \<and> \<not> of_char c < (0x20 :: nat) \<and> of_char c \<noteq> (0x7F :: nat)"
proof -
  have n: "of_char (CHR ''N'') = (78 :: nat)" "of_char (CHR ''S'') = (83 :: nat)"
    "of_char (CHR ''I'') = (73 :: nat)" by simp_all
  from assms have "c = CHR ''N'' \<or> c = CHR ''S'' \<or> c = CHR ''I'' \<or> c \<in> set hextable \<or> \<not> isIllegalMetricRune c"
    unfolding frame_char_def by simp
  then have "of_char c \<in> {48..57} \<union> {65..90} \<union> {95} \<union> {97..122 :: nat}"
    using legal_char_code [of c] hextable_code [of c] n by auto
  then show ?thesis by (rule char_safe_code)
qed

text \<open>
  Claim C5. In every reachable state (the registered names are then legal:
  letters, digits and underscores), for every value of every metric, whatever
  the time and the order of the visit, every character of the string that
  \<^verbatim>\<open>EncodeLogTailMetricsDelta\<close> returns is \<open>N\<close>, \<open>S\<close>, \<open>I\<close>, a lowercase
  hexadecimal digit, or a character that metric names may contain; so it is not
  the double quote (\<open>0x22\<close>), not the backslash (\<open>0x5C\<close>) and not a control
  character (below \<open>0x20\<close>, or \<open>0x7F\<close>).
\<close>

theorem frame_json_safe:
  assumes "reachable s" and "key_order order s"
  shows "\<forall>c \<in> set (fst (EncodeLogTailMetricsDelta now order s)).
           frame_char c \<and> c \<noteq> CHR 0x22 \<and> c \<noteq> CHR 0x5C \<and>
           \<not> of_char c < (0x20 :: nat) \<and> of_char c \<noteq> (0x7F :: nat)"
proof
  fix c
  assume c: "c \<in> set (fst (EncodeLogTailMetricsDelta now order s))"
  have I: "reg_ok s" "names_ok s" using reachable_inv [OF assms(1)] by (simp_all add: inv_def)
  have "frame_char c"
  proof (cases "limited now s")
    case True
    then show ?thesis using c by (simp add: Encode_limited)
  next
    case False
    let ?ps = "range_metrics order s"
    from c obtain x where x: "x \<in> set (visits now (numWireID s) (map (nth (heap s)) ?ps))"
      and cx: "c \<in> set (snd x)"
      unfolding Encode_scan(2) [OF I(1) assms(2) False] by auto
    from visits_snd [OF x] obtain p n' where p: "p \<in> set ?ps"
      and e: "snd x = emitted now n' (heap s ! p)" by auto
    from p have "p \<in> ran (metrics s)" using range_metrics_props(2) [OF I(1) assms(2)] by simp
    then obtain k where k: "metrics s k = Some p" by (auto simp: ran_def)
    then have "m_name (heap s ! p) = k" using I(1) by (simp add: reg_ok_def)
    moreover have "legal_name k" using I(2) k by (auto simp: names_ok_def)
    ultimately have l: "\<forall>c\<in>set (m_name (heap s ! p)). \<not> isIllegalMetricRune c"
      by (simp add: legal_name_def)
    from cx e emitted_chars [of now n' "heap s ! p"]
    have "c \<in> {CHR ''N'', CHR ''S'', CHR ''I''} \<or> c \<in> set hextable \<or> c \<in> set (m_name (heap s ! p))"
      by (simp only: subset_iff Un_iff) blast
    with l show ?thesis unfolding frame_char_def by blast
  qed
  with frame_char_safe [of c]
  show "frame_char c \<and> c \<noteq> CHR 0x22 \<and> c \<noteq> CHR 0x5C \<and>
           \<not> of_char c < (0x20 :: nat) \<and> of_char c \<noteq> (0x7F :: nat)" by blast
qed

lemma sg_eq: "sg = \<lparr>heap = [\<lparr>m_v = - 9223372036854775808, m_name = ''g_1'', m_typ = 0, m_wireID = 0,
       m_lastNamed = 0, m_lastLogVal = 0\<rparr>],
    metrics = [''g_1'' \<mapsto> 0], numWireID = 0, lastDelta = 0, sortedDirty = True, sorted_slice = []\<rparr>"
  by (simp add: sg_def eval_defs)

lemma sg_reachable: "reachable sg"
  unfolding sg_def
  by (rule reachable_Set [OF reachable_NewGauge [OF reachable_init]]) (simp add: eval_defs)

lemma sg_key_order: "key_order [''g_1''] sg"
  by (simp add: key_order_def sg_eq)

lemma sg_frame: "fst (EncodeLogTailMetricsDelta t0 [''g_1''] sg) = ''N06g_1S02ffffffffffffffffff01''"
  by (simp add: sg_eq eval_defs word_le_nat_alt)

theorem frame_json_safe_witness:
  "reachable sg \<and> key_order [''g_1''] sg \<and>
   fst (EncodeLogTailMetricsDelta t0 [''g_1''] sg) = ''N06g_1S02ffffffffffffffffff01'' \<and>
   list_all (\<lambda>c. frame_char c \<and> c \<noteq> CHR 0x22 \<and> c \<noteq> CHR 0x5C \<and>
                  \<not> of_char c < (0x20 :: nat) \<and> of_char c \<noteq> (0x7F :: nat))
     ''N06g_1S02ffffffffffffffffff01''"
  using frame_json_safe [OF sg_reachable sg_key_order, of t0] sg_reachable sg_key_order
  unfolding sg_frame list_all_iff by blast

subsection \<open>Wire ids over time\<close>

lemma wire_mono_refl: "wire_mono s s"
  by (simp add: wire_mono_def)

lemma wire_mono_trans:
  assumes a: "wire_mono s s'" and b: "wire_mono s' s''"
  shows "wire_mono s s''"
proof -
  have l: "length (heap s) \<le> length (heap s')" "length (heap s') \<le> length (heap s'')"
    and n: "numWireID s \<le> numWireID s'" "numWireID s' \<le> numWireID s''"
    using a b by (simp_all add: wire_mono_def)
  have k1: "\<And>p. p < length (heap s) \<Longrightarrow> m_wireID (heap s ! p) \<noteq> 0 \<Longrightarrow>
      m_wireID (heap s' ! p) = m_wireID (heap s ! p)"
    using a by (simp add: wire_mono_def)
  have k2: "\<And>p. p < length (heap s') \<Longrightarrow> m_wireID (heap s' ! p) \<noteq> 0 \<Longrightarrow>
      m_wireID (heap s'' ! p) = m_wireID (heap s' ! p)"
    using b by (simp add: wire_mono_def)
  have f1: "\<And>p. p < length (heap s') \<Longrightarrow> length (heap s) \<le> p \<or> m_wireID (heap s ! p) = 0 \<Longrightarrow>
      m_wireID (heap s' ! p) \<noteq> 0 \<Longrightarrow> numWireID s < m_wireID (heap s' ! p)"
    using a by (simp add: wire_mono_def)
  have f2: "\<And>p. p < length (heap s'') \<Longrightarrow> length (heap s') \<le> p \<or> m_wireID (heap s' ! p) = 0 \<Longrightarrow>
      m_wireID (heap s'' ! p) \<noteq> 0 \<Longrightarrow> numWireID s' < m_wireID (heap s'' ! p)"
    using b by (simp add: wire_mono_def)
  have keep: "m_wireID (heap s'' ! p) = m_wireID (heap s ! p)"
    if "p < length (heap s)" "m_wireID (heap s ! p) \<noteq> 0" for p
  proof -
    have "m_wireID (heap s' ! p) = m_wireID (heap s ! p)" using k1 that by simp
    moreover have "p < length (heap s')" using that l by simp
    ultimately show ?thesis using k2 [of p] that by simp
  qed
  have fresh: "numWireID s < m_wireID (heap s'' ! p)"
    if p: "p < length (heap s'')" and z: "length (heap s) \<le> p \<or> m_wireID (heap s ! p) = 0"
      and nz: "m_wireID (heap s'' ! p) \<noteq> 0" for p
  proof (cases "p < length (heap s') \<and> m_wireID (heap s' ! p) \<noteq> 0")
    case True
    then have "numWireID s < m_wireID (heap s' ! p)" using f1 z by simp
    then show ?thesis using k2 [of p] True by simp
  next
    case False
    then have "length (heap s') \<le> p \<or> m_wireID (heap s' ! p) = 0" by auto
    then have "numWireID s' < m_wireID (heap s'' ! p)" using f2 p nz by simp
    then show ?thesis using n by simp
  qed
  show ?thesis
    unfolding wire_mono_def using l n keep fresh by simp
qed

lemma wire_mono_visit:
  assumes p: "p < length (heap s)"
  shows "wire_mono s (visit now p s)"
proof -
  have w: "\<And>q. m_wireID (heap (visit now p s) ! q) =
      (if q = p \<and> unassigned (heap s ! p) then numWireID s + 1 else m_wireID (heap s ! q))"
    using p by (simp add: visit_heap_nth visited_wireID)
  show ?thesis
    unfolding wire_mono_def w
    by (auto simp: bump_def unassigned_def)
qed

lemma wire_mono_alloc: "m_wireID m = 0 \<Longrightarrow> wire_mono s (s\<lparr>heap := heap s @ [m]\<rparr>)"
  by (auto simp: wire_mono_def nth_append)

lemma wire_mono_heap_v: "wire_mono s (s\<lparr>heap := (heap s)[m := (heap s ! m)\<lparr>m_v := x\<rparr>]\<rparr>)"
proof -
  have "\<And>q. m_wireID ((heap s)[m := (heap s ! m)\<lparr>m_v := x\<rparr>] ! q) = m_wireID (heap s ! q)"
    by (cases "m < length (heap s)") (simp_all add: nth_list_update list_update_beyond)
  then show ?thesis by (simp add: wire_mono_def)
qed

lemma wire_mono_Encode:
  assumes "reg_ok s" and "key_order order s"
  shows "wire_mono s (snd (EncodeLogTailMetricsDelta now order s))"
proof -
  let ?s = "s\<lparr>lastDelta := now\<rparr>"
  have b: "\<forall>p\<in>set (range_metrics order s). p < length (heap ?s)"
    using range_metrics_props(3) [OF assms] by simp
  have "wire_mono s ?s" by (simp add: wire_mono_def)
  then have "wire_mono s (fst (encodeLoop now (range_metrics order s) (?s, None)))"
    using b
    by (intro encodeLoop_preserves [where P = "wire_mono s"])
       (auto intro: wire_mono_trans wire_mono_visit)
  then show ?thesis by (simp add: Encode_snd wire_mono_refl)
qed

lemma step_wire_mono: "step s s' \<Longrightarrow> inv s \<Longrightarrow> wire_mono s s'"
proof (induction rule: step.induct)
  case (step_new s)
  then show ?case by (simp add: new_Metric_def wire_mono_alloc)
next
  case (step_NewUnpublished s name ty)
  then show ?case by (simp add: NewUnpublished_def Let_def wire_mono_alloc wire_mono_refl)
next
  case (step_Publish m s)
  then show ?case by (simp add: Publish_def wire_mono_def)
next
  case (step_Add m s n)
  then show ?case by (simp add: Add_def wire_mono_heap_v)
next
  case (step_Set m s x)
  then show ?case by (simp add: Set_def wire_mono_heap_v)
next
  case (step_Metrics order s)
  then show ?case by (simp add: Metrics_def Let_def wire_mono_def)
next
  case (step_Encode order s now)
  then show ?case by (simp add: wire_mono_Encode inv_def)
qed

lemma steps_wire_mono: "step\<^sup>*\<^sup>* s s' \<Longrightarrow> inv s \<Longrightarrow> wire_mono s s'"
proof (induction rule: rtranclp_induct)
  case base
  show ?case by (rule wire_mono_refl)
next
  case (step y z)
  have "inv y" using steps_inv [OF step.hyps(1) step.prems] .
  then have "wire_mono y z" using step_wire_mono [OF step.hyps(2)] by simp
  with step.IH [OF step.prems] show ?case by (rule wire_mono_trans)
qed

lemma Encode_heap_nth:
  assumes "reg_ok s" and "key_order order s" and "\<not> limited now s" and i: "i < length order"
  shows "heap (snd (EncodeLogTailMetricsDelta now order s)) ! the (metrics s (order ! i)) =
     visited now
       (numWireID s +
        int (length (filter (\<lambda>q. unassigned (heap s ! q)) (take i (range_metrics order s)))))
       (heap s ! the (metrics s (order ! i)))"
proof -
  let ?ps = "range_metrics order s"
  let ?ms = "map (nth (heap s)) ?ps"
  let ?r = "EncodeLogTailMetricsDelta now order s"
  let ?p = "the (metrics s (order ! i))"
  note S = Encode_scan [OF assms(1,2,3)]
  have ps: "?ps = map (\<lambda>k. the (metrics s k)) order"
    by (rule range_metrics_key_order [OF assms(2)])
  have il: "i < length ?ms" using i by (simp add: ps)
  have pi: "?ps ! i = ?p" using i by (simp add: ps)
  have cnt: "length (filter unassigned (take i ?ms)) =
             length (filter (\<lambda>q. unassigned (heap s ! q)) (take i ?ps))"
    by (simp add: take_map filter_map comp_def)
  have "heap (snd ?r) ! ?p = map (nth (heap (snd ?r))) ?ps ! i"
    using il by (simp add: pi)
  also have "\<dots> = fst (visits now (numWireID s) ?ms ! i)"
    unfolding S(1) using il by simp
  also have "\<dots> = visited now (numWireID s + int (length (filter unassigned (take i ?ms)))) (?ms ! i)"
    using visits_nth [OF il, of now "numWireID s"] by simp
  finally show ?thesis using il by (simp add: cnt pi)
qed

lemma filter_take_mono:
  assumes "i < j" and "j \<le> length xs" and "P (xs ! i)"
  shows "length (filter P (take i xs)) < length (filter P (take j xs))"
proof -
  define d where "d = drop (Suc i) (take j xs)"
  have i: "i < length xs" using assms by simp
  have "take (Suc i) (take j xs) = take (Suc i) xs"
    using assms(1) by (simp add: min_def)
  then have "take j xs = take (Suc i) xs @ d"
    using append_take_drop_id [of "Suc i" "take j xs"] by (simp add: d_def)
  also have "take (Suc i) xs = take i xs @ [xs ! i]"
    using i by (simp add: take_Suc_conv_app_nth)
  finally have e: "take j xs = take i xs @ [xs ! i] @ d" by simp
  show ?thesis using assms(3) by (simp add: e)
qed

text \<open>
  Claim C6. Let \<open>s\<close> be a reachable state and \<open>s'\<close> any state reached from it by
  further calls (encode calls, registrations, value changes). In \<open>s'\<close> no two
  metrics have the same non-zero wire id. A wire id that is non-zero in \<open>s\<close> is
  the same in \<open>s'\<close>. A wire id given between \<open>s\<close> and \<open>s'\<close> is larger than every
  wire id of \<open>s\<close>, so none is used again and ids grow with the time of the
  assignment. Within one encode call that is not rate-limited, of two metrics
  that both are pending and without wire id, the one visited first gets the
  smaller id: the order is that of the encoder's visits, whatever the order of
  registration.
\<close>

theorem wire_ids_unique_stable_increasing:
  assumes "reachable s" and "step\<^sup>*\<^sup>* s s'"
  shows "(\<forall>p < length (heap s'). \<forall>q < length (heap s').
            m_wireID (heap s' ! p) \<noteq> 0 \<and> m_wireID (heap s' ! p) = m_wireID (heap s' ! q) \<longrightarrow> p = q)
       \<and> (\<forall>p < length (heap s). m_wireID (heap s ! p) \<noteq> 0 \<longrightarrow>
            m_wireID (heap s' ! p) = m_wireID (heap s ! p))
       \<and> (\<forall>p < length (heap s'). \<forall>q < length (heap s).
            (length (heap s) \<le> p \<or> m_wireID (heap s ! p) = 0) \<and> m_wireID (heap s' ! p) \<noteq> 0 \<longrightarrow>
            m_wireID (heap s ! q) < m_wireID (heap s' ! p))
       \<and> (\<forall>order now i j.
            key_order order s \<and> \<not> limited now s \<and> i < j \<and> j < length order \<and>
            unassigned (heap s ! the (metrics s (order ! i))) \<and>
            unassigned (heap s ! the (metrics s (order ! j))) \<longrightarrow>
            m_wireID (heap (snd (EncodeLogTailMetricsDelta now order s)) ! the (metrics s (order ! i)))
          < m_wireID (heap (snd (EncodeLogTailMetricsDelta now order s)) ! the (metrics s (order ! j))))"
proof (intro conjI)
  have I: "inv s" by (rule reachable_inv [OF assms(1)])
  have I': "inv s'" by (rule steps_inv [OF assms(2) I])
  have M: "wire_mono s s'" by (rule steps_wire_mono [OF assms(2) I])
  show "\<forall>p < length (heap s'). \<forall>q < length (heap s').
            m_wireID (heap s' ! p) \<noteq> 0 \<and> m_wireID (heap s' ! p) = m_wireID (heap s' ! q) \<longrightarrow> p = q"
    using I' unfolding inv_def wire_ok_def by blast
  show "\<forall>p < length (heap s). m_wireID (heap s ! p) \<noteq> 0 \<longrightarrow>
            m_wireID (heap s' ! p) = m_wireID (heap s ! p)"
    using M unfolding wire_mono_def by blast
  show "\<forall>p < length (heap s'). \<forall>q < length (heap s).
            (length (heap s) \<le> p \<or> m_wireID (heap s ! p) = 0) \<and> m_wireID (heap s' ! p) \<noteq> 0 \<longrightarrow>
            m_wireID (heap s ! q) < m_wireID (heap s' ! p)"
  proof (intro allI impI)
    fix p q
    assume p: "p < length (heap s')" and q: "q < length (heap s)"
      and a: "(length (heap s) \<le> p \<or> m_wireID (heap s ! p) = 0) \<and> m_wireID (heap s' ! p) \<noteq> 0"
    have "m_wireID (heap s ! q) \<le> numWireID s" using I q by (simp add: inv_def wire_ok_def)
    moreover have "numWireID s < m_wireID (heap s' ! p)"
      using M p a unfolding wire_mono_def by blast
    ultimately show "m_wireID (heap s ! q) < m_wireID (heap s' ! p)" by simp
  qed
  show "\<forall>order now i j.
            key_order order s \<and> \<not> limited now s \<and> i < j \<and> j < length order \<and>
            unassigned (heap s ! the (metrics s (order ! i))) \<and>
            unassigned (heap s ! the (metrics s (order ! j))) \<longrightarrow>
            m_wireID (heap (snd (EncodeLogTailMetricsDelta now order s)) ! the (metrics s (order ! i)))
          < m_wireID (heap (snd (EncodeLogTailMetricsDelta now order s)) ! the (metrics s (order ! j)))"
  proof (intro allI impI, elim conjE)
    fix order now i j
    assume k: "key_order order s" and n: "\<not> limited now s" and ij: "i < j" and j: "j < length order"
      and ui: "unassigned (heap s ! the (metrics s (order ! i)))"
      and uj: "unassigned (heap s ! the (metrics s (order ! j)))"
    have r: "reg_ok s" using I by (simp add: inv_def)
    let ?ps = "range_metrics order s"
    have ps: "?ps = map (\<lambda>k. the (metrics s k)) order"
      by (rule range_metrics_key_order [OF k])
    have i: "i < length order" using ij j by simp
    have "length (filter (\<lambda>q. unassigned (heap s ! q)) (take i ?ps))
        < length (filter (\<lambda>q. unassigned (heap s ! q)) (take j ?ps))"
      using ij j i ui by (intro filter_take_mono) (simp_all add: ps)
    then show "m_wireID (heap (snd (EncodeLogTailMetricsDelta now order s)) ! the (metrics s (order ! i)))
          < m_wireID (heap (snd (EncodeLogTailMetricsDelta now order s)) ! the (metrics s (order ! j)))"
      unfolding Encode_heap_nth [OF r k n i] Encode_heap_nth [OF r k n j]
      using ui uj by (simp add: visited_wireID)
  qed
qed

lemma w0_eq: "w0 = \<lparr>heap = [\<lparr>m_v = 0, m_name = ''a'', m_typ = 1, m_wireID = 0, m_lastNamed = 0, m_lastLogVal = 0\<rparr>,
                         \<lparr>m_v = 0, m_name = ''b'', m_typ = 1, m_wireID = 0, m_lastNamed = 0, m_lastLogVal = 0\<rparr>],
    metrics = [''a'' \<mapsto> 0, ''b'' \<mapsto> 1], numWireID = 0, lastDelta = 0, sortedDirty = True, sorted_slice = []\<rparr>"
  by (simp add: w0_def eval_defs)

lemma w1_eq: "w1 = \<lparr>heap = [\<lparr>m_v = 0, m_name = ''a'', m_typ = 1, m_wireID = 0, m_lastNamed = 0, m_lastLogVal = 0\<rparr>,
                         \<lparr>m_v = 7, m_name = ''b'', m_typ = 1, m_wireID = 0, m_lastNamed = 0, m_lastLogVal = 0\<rparr>],
    metrics = [''a'' \<mapsto> 0, ''b'' \<mapsto> 1], numWireID = 0, lastDelta = 0, sortedDirty = True, sorted_slice = []\<rparr>"
  by (simp add: w1_def w0_eq Add_def)

lemma w2_eq: "w2 = \<lparr>heap = [\<lparr>m_v = 0, m_name = ''a'', m_typ = 1, m_wireID = 0, m_lastNamed = 0, m_lastLogVal = 0\<rparr>,
                         \<lparr>m_v = 7, m_name = ''b'', m_typ = 1, m_wireID = 1, m_lastNamed = t0, m_lastLogVal = 7\<rparr>],
    metrics = [''a'' \<mapsto> 0, ''b'' \<mapsto> 1], numWireID = 1, lastDelta = t0, sortedDirty = True, sorted_slice = []\<rparr>"
  by (simp add: w2_def w1_eq eval_defs)

lemma w3_eq: "w3 = \<lparr>heap = [\<lparr>m_v = 3, m_name = ''a'', m_typ = 1, m_wireID = 0, m_lastNamed = 0, m_lastLogVal = 0\<rparr>,
                         \<lparr>m_v = 7, m_name = ''b'', m_typ = 1, m_wireID = 1, m_lastNamed = t0, m_lastLogVal = 7\<rparr>],
    metrics = [''a'' \<mapsto> 0, ''b'' \<mapsto> 1], numWireID = 1, lastDelta = t0, sortedDirty = True, sorted_slice = []\<rparr>"
  by (simp add: w3_def w2_eq Add_def)

lemma w4_eq: "w4 = \<lparr>heap = [\<lparr>m_v = 3, m_name = ''a'', m_typ = 1, m_wireID = 2, m_lastNamed = t0 + 15 * Second, m_lastLogVal = 3\<rparr>,
                         \<lparr>m_v = 7, m_name = ''b'', m_typ = 1, m_wireID = 1, m_lastNamed = t0, m_lastLogVal = 7\<rparr>],
    metrics = [''a'' \<mapsto> 0, ''b'' \<mapsto> 1], numWireID = 2, lastDelta = t0 + 15 * Second,
    sortedDirty = True, sorted_slice = []\<rparr>"
  using t0_pos by (simp add: w4_def w3_eq eval_defs)

lemma w5_eq: "w5 = \<lparr>heap = [\<lparr>m_v = 3, m_name = ''a'', m_typ = 1, m_wireID = 0, m_lastNamed = 0, m_lastLogVal = 0\<rparr>,
                         \<lparr>m_v = 7, m_name = ''b'', m_typ = 1, m_wireID = 0, m_lastNamed = 0, m_lastLogVal = 0\<rparr>],
    metrics = [''a'' \<mapsto> 0, ''b'' \<mapsto> 1], numWireID = 0, lastDelta = 0, sortedDirty = True, sorted_slice = []\<rparr>"
  by (simp add: w5_def w1_eq Add_def)

lemma w5_Encode: "heap (snd (EncodeLogTailMetricsDelta t0 [''b'', ''a''] w5)) =
    [\<lparr>m_v = 3, m_name = ''a'', m_typ = 1, m_wireID = 2, m_lastNamed = t0, m_lastLogVal = 3\<rparr>,
     \<lparr>m_v = 7, m_name = ''b'', m_typ = 1, m_wireID = 1, m_lastNamed = t0, m_lastLogVal = 7\<rparr>]"
  by (simp add: w5_eq eval_defs)

lemma w0_reachable: "reachable w0"
  unfolding w0_def by (intro reachable_NewCounter reachable_init)

lemma w1_reachable: "reachable w1"
  unfolding w1_def by (rule reachable_Add [OF w0_reachable]) (simp add: w0_eq)

lemma key_order_ab: "key_order [''a'', ''b''] w1" "key_order [''a'', ''b''] w3" "key_order [''b'', ''a''] w5"
  by (auto simp: key_order_def w1_eq w3_eq w5_eq)

lemma w2_reachable: "reachable w2"
  unfolding w2_def by (rule reachable_Encode [OF w1_reachable key_order_ab(1)])

lemma w5_reachable: "reachable w5"
  unfolding w5_def by (rule reachable_Add [OF w1_reachable]) (simp add: w1_eq)

lemma w2_w4: "step\<^sup>*\<^sup>* w2 w4"
proof -
  have "step w2 w3" unfolding w3_def by (rule step_Add) (simp add: w2_eq)
  moreover have "step w3 w4" unfolding w4_def by (rule step_Encode [OF key_order_ab(2)])
  ultimately show ?thesis by (meson rtranclp.rtrancl_into_rtrancl rtranclp.rtrancl_refl)
qed

theorem wire_ids_unique_stable_increasing_witness:
  "reachable w2 \<and> step\<^sup>*\<^sup>* w2 w4 \<and>
   m_wireID (heap w2 ! 0) = 0 \<and> m_wireID (heap w2 ! 1) = 1 \<and>
   m_wireID (heap w4 ! 1) = m_wireID (heap w2 ! 1) \<and>
   m_wireID (heap w2 ! 1) < m_wireID (heap w4 ! 0) \<and>
   m_wireID (heap w4 ! 0) \<noteq> m_wireID (heap w4 ! 1) \<and>
   reachable w5 \<and> key_order [''b'', ''a''] w5 \<and> \<not> limited t0 w5 \<and>
   unassigned (heap w5 ! the (metrics w5 ''b'')) \<and> unassigned (heap w5 ! the (metrics w5 ''a'')) \<and>
   m_wireID (heap (snd (EncodeLogTailMetricsDelta t0 [''b'', ''a''] w5)) ! the (metrics w5 ''b''))
     < m_wireID (heap (snd (EncodeLogTailMetricsDelta t0 [''b'', ''a''] w5)) ! the (metrics w5 ''a''))"
proof -
  note A = wire_ids_unique_stable_increasing [OF w2_reachable w2_w4]
  have l: "length (heap w2) = 2" "length (heap w4) = 2" by (simp_all add: w2_eq w4_eq)
  have z: "m_wireID (heap w2 ! 0) = 0" "m_wireID (heap w2 ! 1) = 1" by (simp_all add: w2_eq)
  have nz: "m_wireID (heap w4 ! 0) \<noteq> 0" by (simp add: w4_eq)
  from A have "\<forall>p < length (heap w2). m_wireID (heap w2 ! p) \<noteq> 0 \<longrightarrow>
            m_wireID (heap w4 ! p) = m_wireID (heap w2 ! p)" by blast
  then have keep: "m_wireID (heap w4 ! 1) = m_wireID (heap w2 ! 1)" using l z by simp
  from A have "\<forall>p < length (heap w4). \<forall>q < length (heap w2).
            (length (heap w2) \<le> p \<or> m_wireID (heap w2 ! p) = 0) \<and> m_wireID (heap w4 ! p) \<noteq> 0 \<longrightarrow>
            m_wireID (heap w2 ! q) < m_wireID (heap w4 ! p)" by blast
  then have "0 < length (heap w4) \<longrightarrow> 1 < length (heap w2) \<longrightarrow>
      (length (heap w2) \<le> 0 \<or> m_wireID (heap w2 ! 0) = 0) \<and> m_wireID (heap w4 ! 0) \<noteq> 0 \<longrightarrow>
            m_wireID (heap w2 ! 1) < m_wireID (heap w4 ! 0)" by blast
  then have later: "m_wireID (heap w2 ! 1) < m_wireID (heap w4 ! 0)" using l z nz by simp
  from keep later have diff: "m_wireID (heap w4 ! 0) \<noteq> m_wireID (heap w4 ! 1)" by simp
  note B = wire_ids_unique_stable_increasing [OF w5_reachable rtranclp.rtrancl_refl]
  have n: "\<not> limited t0 w5" by (simp add: limited_def w5_eq IsZero_def)
  have u: "unassigned (heap w5 ! the (metrics w5 ''b''))" "unassigned (heap w5 ! the (metrics w5 ''a''))"
    by (simp_all add: w5_eq unassigned_def pending_def)
  from B have "\<forall>order now i j.
            key_order order w5 \<and> \<not> limited now w5 \<and> i < j \<and> j < length order \<and>
            unassigned (heap w5 ! the (metrics w5 (order ! i))) \<and>
            unassigned (heap w5 ! the (metrics w5 (order ! j))) \<longrightarrow>
            m_wireID (heap (snd (EncodeLogTailMetricsDelta now order w5)) ! the (metrics w5 (order ! i)))
          < m_wireID (heap (snd (EncodeLogTailMetricsDelta now order w5)) ! the (metrics w5 (order ! j)))"
    by blast
  from this [rule_format, of "[''b'', ''a'']" t0 0 1]
  have first: "m_wireID (heap (snd (EncodeLogTailMetricsDelta t0 [''b'', ''a''] w5)) ! the (metrics w5 ''b''))
     < m_wireID (heap (snd (EncodeLogTailMetricsDelta t0 [''b'', ''a''] w5)) ! the (metrics w5 ''a''))"
    using key_order_ab(3) n u by simp
  show ?thesis
    using w2_reachable w2_w4 z keep later diff w5_reachable key_order_ab(3) n u first by blast
qed

subsection \<open>The sorted list\<close>

lemma Metrics_fst_set:
  assumes "inv s" and "key_order order s"
  shows "distinct (fst (Metrics order s))"
    and "set (fst (Metrics order s)) = ran (metrics s)"
    and "sorted (map (\<lambda>m. m_name (heap s ! m)) (fst (Metrics order s)))"
proof -
  have r: "reg_ok s" and c: "cache_ok s" using assms(1) by (simp_all add: inv_def)
  note R = range_metrics_props [OF r assms(2)]
  show "distinct (fst (Metrics order s))"
    using c R(1) by (simp add: Metrics_def Let_def cache_ok_def)
  show "set (fst (Metrics order s)) = ran (metrics s)"
    using c R(2) by (simp add: Metrics_def Let_def cache_ok_def)
  show "sorted (map (\<lambda>m. m_name (heap s ! m)) (fst (Metrics order s)))"
    using c by (simp add: Metrics_def Let_def cache_ok_def)
qed

lemma names_inj_on_ran:
  assumes "reg_ok s"
  shows "inj_on (\<lambda>m. m_name (heap s ! m)) (ran (metrics s))"
proof (rule inj_onI)
  fix p q
  assume "p \<in> ran (metrics s)" "q \<in> ran (metrics s)"
  then obtain k k' where k: "metrics s k = Some p" "metrics s k' = Some q"
    by (auto simp: ran_def)
  moreover assume "m_name (heap s ! p) = m_name (heap s ! q)"
  ultimately have "k = k'" using assms by (simp add: reg_ok_def)
  with k show "p = q" by simp
qed

lemma Metrics_frame:
  "heap (snd (Metrics order s)) = heap s"
  "metrics (snd (Metrics order s)) = metrics s"
  "numWireID (snd (Metrics order s)) = numWireID s"
  "lastDelta (snd (Metrics order s)) = lastDelta s"
  "\<not> sortedDirty (snd (Metrics order s))"
  "sorted_slice (snd (Metrics order s)) = fst (Metrics order s)"
  by (simp_all add: Metrics_def Let_def)

lemma Metrics_listing:
  assumes "inv s" and "key_order order s"
  shows "sorted_wrt (<) (map (\<lambda>m. m_name (heap s ! m)) (fst (Metrics order s)))"
    and "map (\<lambda>m. m_name (heap s ! m)) (fst (Metrics order s)) = sorted_list_of_set (dom (metrics s))"
proof -
  have r: "reg_ok s" using assms(1) by (simp add: inv_def)
  let ?l = "fst (Metrics order s)"
  let ?n = "\<lambda>m. m_name (heap s ! m)"
  note M = Metrics_fst_set [OF assms]
  have inj: "inj_on ?n (set ?l)" using names_inj_on_ran [OF r] M(2) by simp
  have dn: "distinct (map ?n ?l)" using M(1) inj by (simp add: distinct_map)
  show st: "sorted_wrt (<) (map ?n ?l)"
    using M(3) dn by (simp add: strict_sorted_iff)
  have "set (map ?n ?l) = dom (metrics s)"
  proof -
    have "?n ` ran (metrics s) = dom (metrics s)"
    proof (intro set_eqI iffI)
      fix k assume "k \<in> ?n ` ran (metrics s)"
      then obtain p k' where "metrics s k' = Some p" "k = m_name (heap s ! p)"
        by (auto simp: ran_def)
      then show "k \<in> dom (metrics s)" using r by (auto simp: reg_ok_def)
    next
      fix k assume "k \<in> dom (metrics s)"
      then obtain p where p: "metrics s k = Some p" by auto
      then have "m_name (heap s ! p) = k" "p \<in> ran (metrics s)"
        using r by (auto simp: reg_ok_def ran_def)
      then show "k \<in> ?n ` ran (metrics s)" by force
    qed
    then show ?thesis using M(2) by simp
  qed
  then show "map ?n ?l = sorted_list_of_set (dom (metrics s))"
    using M(3) dn by (metis sorted_list_of_set.idem_if_sorted_distinct)
qed

text \<open>
  Claim C8. In every reachable state, whatever the order in which the map is
  ranged over, \<^verbatim>\<open>Metrics()\<close> returns each registered metric exactly once, in
  strictly ascending order of the names; this holds when the cache is dirty and
  is rebuilt, and when it is not and the slice built before is returned. The
  call changes neither the registry nor any metric, and a second call returns
  the same slice from the cache.
\<close>

theorem Metrics_sorted_registered:
  assumes "reachable s" and "key_order order s"
  shows "distinct (fst (Metrics order s))
       \<and> set (fst (Metrics order s)) = ran (metrics s)
       \<and> sorted_wrt (<) (map (\<lambda>m. m_name (heap s ! m)) (fst (Metrics order s)))
       \<and> map (\<lambda>m. m_name (heap s ! m)) (fst (Metrics order s)) = sorted_list_of_set (dom (metrics s))
       \<and> (sortedDirty s \<longrightarrow>
            fst (Metrics order s) = sort_key (\<lambda>m. m_name (heap s ! m)) (range_metrics order s))
       \<and> (\<not> sortedDirty s \<longrightarrow> fst (Metrics order s) = sorted_slice s)
       \<and> heap (snd (Metrics order s)) = heap s
       \<and> metrics (snd (Metrics order s)) = metrics s
       \<and> fst (Metrics order' (snd (Metrics order s))) = fst (Metrics order s)"
proof -
  have I: "inv s" by (rule reachable_inv [OF assms(1)])
  note M = Metrics_fst_set [OF I assms(2)]
  note L = Metrics_listing [OF I assms(2)]
  have again: "fst (Metrics order' (snd (Metrics order s))) = fst (Metrics order s)"
    by (simp add: Metrics_def Let_def)
  show ?thesis
    using M(1,2) L again by (simp add: Metrics_frame) (simp add: Metrics_def Let_def)
qed

lemma v0_eq: "v0 = \<lparr>heap = [\<lparr>m_v = 0, m_name = ''b'', m_typ = 1, m_wireID = 0, m_lastNamed = 0, m_lastLogVal = 0\<rparr>,
                         \<lparr>m_v = 6, m_name = ''a'', m_typ = 0, m_wireID = 0, m_lastNamed = 0, m_lastLogVal = 0\<rparr>],
    metrics = [''b'' \<mapsto> 0, ''a'' \<mapsto> 1], numWireID = 0, lastDelta = 0, sortedDirty = True, sorted_slice = []\<rparr>"
  by (simp add: v0_def eval_defs)

lemma v0_reachable: "reachable v0"
  unfolding v0_def
  by (rule reachable_Set [OF reachable_NewGauge [OF reachable_NewCounter [OF reachable_init]]])
     (simp add: eval_defs)

lemma v0_key_order: "key_order [''b'', ''a''] v0"
  by (auto simp: key_order_def v0_eq)

lemma a_le_b: "''a'' \<le> ''b''" "\<not> ''b'' \<le> ''a''"
  by (simp_all add: less_eq_char_def less_char_def)

lemma v0_sort: "sort_key (\<lambda>m. m_name (heap v0 ! m)) (range_metrics [''b'', ''a''] v0) = [1, 0]"
  by (simp add: v0_eq range_metrics_def List.map_filter_def a_le_b)

theorem Metrics_sorted_registered_witness:
  "reachable v0 \<and> key_order [''b'', ''a''] v0 \<and> sortedDirty v0 \<and>
   fst (Metrics [''b'', ''a''] v0) = [1, 0] \<and>
   map (\<lambda>m. m_name (heap v0 ! m)) (fst (Metrics [''b'', ''a''] v0)) = [''a'', ''b''] \<and>
   fst (Metrics [''a'', ''b''] (snd (Metrics [''b'', ''a''] v0))) = [1, 0]"
proof -
  have d: "sortedDirty v0" by (simp add: v0_eq)
  note T = Metrics_sorted_registered [OF v0_reachable v0_key_order, of "[''a'', ''b'']"]
  from T d have "fst (Metrics [''b'', ''a''] v0) =
      sort_key (\<lambda>m. m_name (heap v0 ! m)) (range_metrics [''b'', ''a''] v0)" by blast
  then have l: "fst (Metrics [''b'', ''a''] v0) = [1, 0]" by (simp only: v0_sort)
  from T have "fst (Metrics [''a'', ''b''] (snd (Metrics [''b'', ''a''] v0))) = fst (Metrics [''b'', ''a''] v0)"
    by blast
  then have c: "fst (Metrics [''a'', ''b''] (snd (Metrics [''b'', ''a''] v0))) = [1, 0]"
    by (simp only: l)
  have n: "map (\<lambda>m. m_name (heap v0 ! m)) (fst (Metrics [''b'', ''a''] v0)) = [''a'', ''b'']"
    unfolding l by (simp add: v0_eq)
  show ?thesis using v0_reachable v0_key_order d l n c by blast
qed

subsection \<open>The exposition format\<close>

lemma writeMetric_lines: "writeMetric s w m = w @ exposition_lines (heap s ! m)"
  by (simp add: writeMetric_def exposition_lines_def Type_def Name_def Value_def Let_def)

lemma foldl_writeMetric:
  "foldl (writeMetric s) w ms = w @ concat (map (\<lambda>m. exposition_lines (heap s ! m)) ms)"
  by (induction ms arbitrary: w) (simp_all add: writeMetric_lines)

lemma WritePrometheus_eq:
  "WritePrometheusExpositionFormat order w s =
     (w @ concat (map (\<lambda>m. exposition_lines (heap s ! m)) (fst (Metrics order s))),
      snd (Metrics order s))"
proof -
  obtain ms s' where m: "Metrics order s = (ms, s')" by (cases "Metrics order s")
  then have "heap s' = heap s" using Metrics_frame(1) [of order s] by simp
  then show ?thesis
    by (simp add: WritePrometheusExpositionFormat_def m foldl_writeMetric)
qed

text \<open>
  Claim C9, as amended. In every reachable state,
  \<^verbatim>\<open>WritePrometheusExpositionFormat\<close> appends to the sink, for the registered
  metrics \<open>ms\<close> (each once) in ascending order of the names, the lines of each
  metric: for a metric whose type is \<^verbatim>\<open>TypeGauge\<close> the line
  \<^verbatim>\<open># TYPE name gauge\<close>, for one whose type is \<^verbatim>\<open>TypeCounter\<close> the line
  \<^verbatim>\<open># TYPE name counter\<close>, each followed by the line with the name, a space and
  the current value in decimal; for a metric of any other type (the \<^verbatim>\<open>switch\<close>
  has no case for it) the line with the name and the value only. The call
  changes no metric (so no value, \<^verbatim>\<open>lastLogVal\<close>, \<^verbatim>\<open>lastNamed\<close> or wire id), not
  the wire id counter, not the time of the last encode call and not the
  registry.
\<close>

theorem exposition_format:
  assumes "reachable s" and "key_order order s"
  shows "\<exists>ms. distinct ms \<and> set ms = ran (metrics s)
           \<and> sorted_wrt (<) (map (\<lambda>m. m_name (heap s ! m)) ms)
           \<and> fst (WritePrometheusExpositionFormat order w s) =
               w @ concat (map (\<lambda>m. exposition_lines (heap s ! m)) ms)
           \<and> (\<forall>m \<in> set ms.
                 (m_typ (heap s ! m) = TypeGauge \<longrightarrow>
                    exposition_lines (heap s ! m) =
                      ''# TYPE '' @ m_name (heap s ! m) @ '' gauge'' @ [CHR 0x0A] @
                      m_name (heap s ! m) @ '' '' @ FormatInt (m_v (heap s ! m)) @ [CHR 0x0A]) \<and>
                 (m_typ (heap s ! m) = TypeCounter \<longrightarrow>
                    exposition_lines (heap s ! m) =
                      ''# TYPE '' @ m_name (heap s ! m) @ '' counter'' @ [CHR 0x0A] @
                      m_name (heap s ! m) @ '' '' @ FormatInt (m_v (heap s ! m)) @ [CHR 0x0A]) \<and>
                 (m_typ (heap s ! m) \<noteq> TypeGauge \<and> m_typ (heap s ! m) \<noteq> TypeCounter \<longrightarrow>
                    exposition_lines (heap s ! m) =
                      m_name (heap s ! m) @ '' '' @ FormatInt (m_v (heap s ! m)) @ [CHR 0x0A]))
           \<and> heap (snd (WritePrometheusExpositionFormat order w s)) = heap s
           \<and> numWireID (snd (WritePrometheusExpositionFormat order w s)) = numWireID s
           \<and> lastDelta (snd (WritePrometheusExpositionFormat order w s)) = lastDelta s
           \<and> metrics (snd (WritePrometheusExpositionFormat order w s)) = metrics s"
proof -
  have I: "inv s" by (rule reachable_inv [OF assms(1)])
  note M = Metrics_fst_set [OF I assms(2)]
  note L = Metrics_listing [OF I assms(2)]
  let ?ms = "fst (Metrics order s)"
  have k: "\<forall>m \<in> set ?ms.
                 (m_typ (heap s ! m) = TypeGauge \<longrightarrow>
                    exposition_lines (heap s ! m) =
                      ''# TYPE '' @ m_name (heap s ! m) @ '' gauge'' @ [CHR 0x0A] @
                      m_name (heap s ! m) @ '' '' @ FormatInt (m_v (heap s ! m)) @ [CHR 0x0A]) \<and>
                 (m_typ (heap s ! m) = TypeCounter \<longrightarrow>
                    exposition_lines (heap s ! m) =
                      ''# TYPE '' @ m_name (heap s ! m) @ '' counter'' @ [CHR 0x0A] @
                      m_name (heap s ! m) @ '' '' @ FormatInt (m_v (heap s ! m)) @ [CHR 0x0A]) \<and>
                 (m_typ (heap s ! m) \<noteq> TypeGauge \<and> m_typ (heap s ! m) \<noteq> TypeCounter \<longrightarrow>
                    exposition_lines (heap s ! m) =
                      m_name (heap s ! m) @ '' '' @ FormatInt (m_v (heap s ! m)) @ [CHR 0x0A])"
    by (simp add: exposition_lines_def newline_def TypeGauge_def TypeCounter_def)
  have "distinct ?ms" "set ?ms = ran (metrics s)"
    "sorted_wrt (<) (map (\<lambda>m. m_name (heap s ! m)) ?ms)"
    using M(1,2) L(1) by simp_all
  then show ?thesis
    using k by (intro exI [of _ ?ms]) (simp add: WritePrometheus_eq Metrics_frame)
qed

lemma sc4_eq: "sc4 = \<lparr>heap = [\<lparr>m_v = 6, m_name = ''foo_total'', m_typ = 1, m_wireID = 1, m_lastNamed = t0, m_lastLogVal = 6\<rparr>],
    metrics = [''foo_total'' \<mapsto> 0], numWireID = 1, lastDelta = t0 + 15 * Second,
    sortedDirty = True, sorted_slice = []\<rparr>"
  using t0_pos by (simp add: sc4_def sc3_eq eval_defs)

lemma sc4_reachable: "reachable sc4"
  unfolding sc4_def by (rule reachable_Encode [OF sc3_reachable sc3_key_order])

lemma sc4_key_order: "key_order [''foo_total''] sc4"
  by (simp add: key_order_def sc4_eq)

lemmas format_defs = WritePrometheus_eq Metrics_def range_metrics_def List.map_filter_def
  exposition_lines_def TypeGauge_def TypeCounter_def newline_def FormatInt_def FormatUint.simps Let_def

theorem exposition_format_witness:
  "reachable sc4 \<and> key_order [''foo_total''] sc4 \<and>
   fst (WritePrometheusExpositionFormat [''foo_total''] [] sc4) =
     ''# TYPE foo_total counter'' @ [CHR 0x0A] @ ''foo_total 6'' @ [CHR 0x0A] \<and>
   heap (snd (WritePrometheusExpositionFormat [''foo_total''] [] sc4)) = heap sc4 \<and>
   numWireID (snd (WritePrometheusExpositionFormat [''foo_total''] [] sc4)) = numWireID sc4 \<and>
   lastDelta (snd (WritePrometheusExpositionFormat [''foo_total''] [] sc4)) = lastDelta sc4 \<and>
   reachable v0 \<and> key_order [''b'', ''a''] v0 \<and>
   fst (WritePrometheusExpositionFormat [''b'', ''a''] [] v0) =
     ''# TYPE a gauge'' @ [CHR 0x0A] @ ''a 6'' @ [CHR 0x0A] @
     ''# TYPE b counter'' @ [CHR 0x0A] @ ''b 0'' @ [CHR 0x0A] \<and>
   heap (snd (WritePrometheusExpositionFormat [''b'', ''a''] [] v0)) = heap v0"
proof -
  from exposition_format [OF sc4_reachable sc4_key_order, of "[]"]
  obtain ms where ms: "distinct ms" "set ms = ran (metrics sc4)"
    and out: "fst (WritePrometheusExpositionFormat [''foo_total''] [] sc4) =
               [] @ concat (map (\<lambda>m. exposition_lines (heap sc4 ! m)) ms)"
    and fr: "heap (snd (WritePrometheusExpositionFormat [''foo_total''] [] sc4)) = heap sc4"
      "numWireID (snd (WritePrometheusExpositionFormat [''foo_total''] [] sc4)) = numWireID sc4"
      "lastDelta (snd (WritePrometheusExpositionFormat [''foo_total''] [] sc4)) = lastDelta sc4"
    by blast
  have "set ms = {0}" using ms(2) by (simp add: sc4_eq)
  have "length ms = card (set ms)" using ms(1) by (simp add: distinct_card)
  then have "length ms = 1" by (simp add: \<open>set ms = {0}\<close>)
  then obtain x where x: "ms = [x]" by (cases ms) auto
  with \<open>set ms = {0}\<close> have "ms = [0]" by simp
  then have o1: "fst (WritePrometheusExpositionFormat [''foo_total''] [] sc4) =
     ''# TYPE foo_total counter'' @ [CHR 0x0A] @ ''foo_total 6'' @ [CHR 0x0A]"
    unfolding out
    by (simp add: sc4_eq exposition_lines_def TypeGauge_def TypeCounter_def newline_def
        FormatInt_def FormatUint.simps)
  from exposition_format [OF v0_reachable v0_key_order, of "[]"]
  have fr2: "heap (snd (WritePrometheusExpositionFormat [''b'', ''a''] [] v0)) = heap v0"
    by blast
  have o2: "fst (WritePrometheusExpositionFormat [''b'', ''a''] [] v0) =
     ''# TYPE a gauge'' @ [CHR 0x0A] @ ''a 6'' @ [CHR 0x0A] @
     ''# TYPE b counter'' @ [CHR 0x0A] @ ''b 0'' @ [CHR 0x0A]"
    by (simp add: v0_eq format_defs a_le_b)
  show ?thesis
    using sc4_reachable sc4_key_order o1 fr v0_reachable v0_key_order o2 fr2 by blast
qed

lemma odd0_eq: "odd0 = \<lparr>heap = [\<lparr>m_v = 0, m_name = ''odd'', m_typ = 7, m_wireID = 0, m_lastNamed = 0, m_lastLogVal = 0\<rparr>],
    metrics = [''odd'' \<mapsto> 0], numWireID = 0, lastDelta = 0, sortedDirty = True, sorted_slice = []\<rparr>"
  by (simp add: odd0_def eval_defs)

lemma odd0_reachable: "reachable odd0"
proof -
  have "reachable (snd (NewUnpublished ''odd'' 7 init))"
    by (rule reachable_step [OF reachable_init step_NewUnpublished])
  moreover have "0 < length (heap (snd (NewUnpublished ''odd'' 7 init)))"
    by (simp add: eval_defs)
  ultimately show ?thesis
    unfolding odd0_def by (intro reachable_step [OF _ step_Publish])
qed

text \<open>
  Claim C9 as it was stated fails: it promises a \<^verbatim>\<open># TYPE\<close> line for each
  registered metric. The metric \<^verbatim>\<open>odd\<close> of the state \<open>odd0\<close> is registered through
  the exported \<^verbatim>\<open>NewUnpublished\<close> and \<^verbatim>\<open>Publish\<close>, its type is 7, and the
  exposition of \<open>odd0\<close> is the value line alone: neither the text with the gauge
  line nor the text with the counter line.
\<close>

theorem exposition_format_counterexample:
  "reachable odd0 \<and> key_order [''odd''] odd0 \<and> metrics odd0 ''odd'' = Some 0 \<and>
   Type 0 odd0 = 7 \<and> Type 0 odd0 \<noteq> TypeGauge \<and> Type 0 odd0 \<noteq> TypeCounter \<and>
   fst (WritePrometheusExpositionFormat [''odd''] [] odd0) = ''odd 0'' @ [CHR 0x0A] \<and>
   fst (WritePrometheusExpositionFormat [''odd''] [] odd0) \<noteq>
     ''# TYPE odd gauge'' @ [CHR 0x0A] @ ''odd 0'' @ [CHR 0x0A] \<and>
   fst (WritePrometheusExpositionFormat [''odd''] [] odd0) \<noteq>
     ''# TYPE odd counter'' @ [CHR 0x0A] @ ''odd 0'' @ [CHR 0x0A]"
proof -
  have k: "key_order [''odd''] odd0" by (simp add: key_order_def odd0_eq)
  have m: "metrics odd0 ''odd'' = Some 0" by (simp add: odd0_eq)
  have t: "Type 0 odd0 = 7" "Type 0 odd0 \<noteq> TypeGauge" "Type 0 odd0 \<noteq> TypeCounter"
    by (simp_all add: odd0_eq Type_def TypeGauge_def TypeCounter_def)
  have o: "fst (WritePrometheusExpositionFormat [''odd''] [] odd0) = ''odd 0'' @ [CHR 0x0A]"
    by (simp add: odd0_eq format_defs)
  show ?thesis
    unfolding o using odd0_reachable k m t by simp
qed

subsection \<open>Registration\<close>

lemma NewCounter_register: "NewCounter name s = register name TypeCounter s"
  by (simp add: NewCounter_def register_def)

lemma NewGauge_register: "NewGauge name s = register name TypeGauge s"
  by (simp add: NewGauge_def register_def)

lemma legal_name_iff:
  "legal_name name \<longleftrightarrow> \<not> (name = [] \<or> (\<exists>c\<in>set name. isIllegalMetricRune c))"
  by (auto simp: legal_name_def)

lemma register_cases:
  "register name ty s =
     (if \<not> legal_name name
      then (Inl (IllegalMetricName name (IndexFunc name isIllegalMetricRune)), s)
      else if name \<in> dom (metrics s)
      then (Inl (DuplicateMetric name),
            s\<lparr>heap := heap s @ [\<lparr>m_v = 0, m_name = name, m_typ = ty, m_wireID = 0,
                                   m_lastNamed = 0, m_lastLogVal = 0\<rparr>]\<rparr>)
      else (Inr (length (heap s)),
            s\<lparr>heap := heap s @ [\<lparr>m_v = 0, m_name = name, m_typ = ty, m_wireID = 0,
                                   m_lastNamed = 0, m_lastLogVal = 0\<rparr>],
              metrics := (metrics s)(name \<mapsto> length (heap s)),
              sortedDirty := True\<rparr>))"
proof (cases "legal_name name")
  case False
  then have "name = [] \<or> IndexFunc name isIllegalMetricRune \<noteq> - 1"
    by (auto simp: legal_name_def IndexFunc_none)
  then show ?thesis
    using False by (auto simp: register_def NewUnpublished_def Let_def)
next
  case True
  then have n: "name \<noteq> []" "IndexFunc name isIllegalMetricRune = - 1"
    by (auto simp: legal_name_def IndexFunc_none)
  show ?thesis
    using True n
    by (auto simp: register_def NewUnpublished_def Publish_def Name_def Let_def)
qed

lemma Publish_fails:
  "(\<exists>e. fst (Publish m s) = Inl e) \<longleftrightarrow> Name m s = [] \<or> Name m s \<in> dom (metrics s)"
  by (auto simp: Publish_def)

lemma reachable_register': "reachable s \<Longrightarrow> reachable (snd (register name ty s))"
  unfolding register_def register_snd by (rule reachable_register)

lemma legal_char_iff:
  "isIllegalMetricRune c \<longleftrightarrow> of_char c \<notin> {97..122} \<union> {65..90} \<union> {48..57} \<union> {95 :: nat}"
proof -
  have u: "c = CHR ''_'' \<longleftrightarrow> of_char c = (95 :: nat)"
  proof
    assume "c = CHR ''_''" then show "of_char c = (95 :: nat)" by simp
  next
    assume "of_char c = (95 :: nat)"
    then have "of_char c = (of_char (CHR ''_'') :: nat)" by simp
    then show "c = CHR ''_''" by (simp only: of_char_eq_iff)
  qed
  show ?thesis
    unfolding isIllegalMetricRune_def u by (auto simp: less_eq_char_def)
qed

text \<open>
  Claim C7. Constructing and registering a metric (\<^verbatim>\<open>NewCounter\<close>, \<^verbatim>\<open>NewGauge\<close>,
  which are \<open>register\<close> with the two types) panics exactly when the name is
  empty, has a character that is illegal (one whose code is not that of a
  letter \<open>a-z\<close>, \<open>A-Z\<close>, a digit or the underscore), or is a name already in the
  registry; \<^verbatim>\<open>Publish\<close> alone panics exactly when the metric's name is empty or
  already registered. After a panic the package variables of the registry and
  the metrics allocated before are as they were. Otherwise the new metric is in
  the map under its name, with the value 0. In a reachable state, registering
  two distinct legal names that are not yet registered succeeds twice, and
  \<^verbatim>\<open>Metrics()\<close> then lists both metrics.
\<close>

theorem registration_outcome:
  "NewCounter name s = register name TypeCounter s
   \<and> NewGauge name s = register name TypeGauge s
   \<and> ((\<exists>e. fst (register name ty s) = Inl e) \<longleftrightarrow>
        name = [] \<or> (\<exists>c\<in>set name. isIllegalMetricRune c) \<or> name \<in> dom (metrics s))
   \<and> (isIllegalMetricRune c \<longleftrightarrow> of_char c \<notin> {97..122} \<union> {65..90} \<union> {48..57} \<union> {95 :: nat})
   \<and> ((\<exists>e. fst (Publish m s) = Inl e) \<longleftrightarrow> Name m s = [] \<or> Name m s \<in> dom (metrics s))
   \<and> ((\<exists>e. fst (Publish m s) = Inl e) \<longrightarrow> snd (Publish m s) = s)
   \<and> ((\<exists>e. fst (register name ty s) = Inl e) \<longrightarrow> registry_unchanged s (snd (register name ty s)))
   \<and> (\<forall>p. fst (register name ty s) = Inr p \<longrightarrow>
         p = length (heap s) \<and>
         metrics (snd (register name ty s)) = (metrics s)(name \<mapsto> p) \<and>
         sortedDirty (snd (register name ty s)) \<and>
         heap (snd (register name ty s)) =
           heap s @ [\<lparr>m_v = 0, m_name = name, m_typ = ty, m_wireID = 0,
                      m_lastNamed = 0, m_lastLogVal = 0\<rparr>])
   \<and> (reachable s \<and> legal_name n1 \<and> legal_name n2 \<and> n1 \<noteq> n2 \<and>
      n1 \<notin> dom (metrics s) \<and> n2 \<notin> dom (metrics s) \<and>
      key_order order (snd (register n2 ty2 (snd (register n1 ty1 s)))) \<longrightarrow>
      (\<exists>m1 m2. fst (register n1 ty1 s) = Inr m1 \<and>
          fst (register n2 ty2 (snd (register n1 ty1 s))) = Inr m2 \<and> m1 \<noteq> m2 \<and>
          {m1, m2} \<subseteq> set (fst (Metrics order (snd (register n2 ty2 (snd (register n1 ty1 s)))))) \<and>
          Name m1 (snd (register n2 ty2 (snd (register n1 ty1 s)))) = n1 \<and>
          Name m2 (snd (register n2 ty2 (snd (register n1 ty1 s)))) = n2))"
proof (intro conjI)
  show "NewCounter name s = register name TypeCounter s" by (rule NewCounter_register)
  show "NewGauge name s = register name TypeGauge s" by (rule NewGauge_register)
  show "(\<exists>e. fst (register name ty s) = Inl e) \<longleftrightarrow>
        name = [] \<or> (\<exists>c\<in>set name. isIllegalMetricRune c) \<or> name \<in> dom (metrics s)"
    unfolding register_cases using legal_name_iff [of name] by auto
  show "isIllegalMetricRune c \<longleftrightarrow> of_char c \<notin> {97..122} \<union> {65..90} \<union> {48..57} \<union> {95 :: nat}"
    by (rule legal_char_iff)
  show "(\<exists>e. fst (Publish m s) = Inl e) \<longleftrightarrow> Name m s = [] \<or> Name m s \<in> dom (metrics s)"
    by (rule Publish_fails)
  show "(\<exists>e. fst (Publish m s) = Inl e) \<longrightarrow> snd (Publish m s) = s"
    by (auto simp: Publish_def split: if_splits)
  show "(\<exists>e. fst (register name ty s) = Inl e) \<longrightarrow> registry_unchanged s (snd (register name ty s))"
    unfolding register_cases by (auto simp: registry_unchanged_def)
  show "\<forall>p. fst (register name ty s) = Inr p \<longrightarrow>
         p = length (heap s) \<and>
         metrics (snd (register name ty s)) = (metrics s)(name \<mapsto> p) \<and>
         sortedDirty (snd (register name ty s)) \<and>
         heap (snd (register name ty s)) =
           heap s @ [\<lparr>m_v = 0, m_name = name, m_typ = ty, m_wireID = 0,
                      m_lastNamed = 0, m_lastLogVal = 0\<rparr>]"
    unfolding register_cases by (auto split: if_splits)
  show "reachable s \<and> legal_name n1 \<and> legal_name n2 \<and> n1 \<noteq> n2 \<and>
      n1 \<notin> dom (metrics s) \<and> n2 \<notin> dom (metrics s) \<and>
      key_order order (snd (register n2 ty2 (snd (register n1 ty1 s)))) \<longrightarrow>
      (\<exists>m1 m2. fst (register n1 ty1 s) = Inr m1 \<and>
          fst (register n2 ty2 (snd (register n1 ty1 s))) = Inr m2 \<and> m1 \<noteq> m2 \<and>
          {m1, m2} \<subseteq> set (fst (Metrics order (snd (register n2 ty2 (snd (register n1 ty1 s)))))) \<and>
          Name m1 (snd (register n2 ty2 (snd (register n1 ty1 s)))) = n1 \<and>
          Name m2 (snd (register n2 ty2 (snd (register n1 ty1 s)))) = n2)"
  proof (intro impI, elim conjE)
    let ?s1 = "snd (register n1 ty1 s)"
    let ?s2 = "snd (register n2 ty2 ?s1)"
    assume r: "reachable s" and l: "legal_name n1" "legal_name n2" and ne: "n1 \<noteq> n2"
      and f: "n1 \<notin> dom (metrics s)" "n2 \<notin> dom (metrics s)" and k: "key_order order ?s2"
    let ?m1 = "length (heap s)"
    let ?m2 = "Suc (length (heap s))"
    have r1: "register n1 ty1 s = (Inr ?m1,
            s\<lparr>heap := heap s @ [\<lparr>m_v = 0, m_name = n1, m_typ = ty1, m_wireID = 0,
                                   m_lastNamed = 0, m_lastLogVal = 0\<rparr>],
              metrics := (metrics s)(n1 \<mapsto> ?m1), sortedDirty := True\<rparr>)"
      using l(1) f(1) by (simp add: register_cases)
    define s1 where "s1 = snd (register n1 ty1 s)"
    have s1: "metrics s1 = (metrics s)(n1 \<mapsto> ?m1)" "length (heap s1) = ?m2"
      by (simp_all add: s1_def r1)
    have f2: "n2 \<notin> dom (metrics s1)" using f(2) ne by (simp add: s1)
    have r2: "register n2 ty2 s1 = (Inr ?m2,
            s1\<lparr>heap := heap s1 @ [\<lparr>m_v = 0, m_name = n2, m_typ = ty2, m_wireID = 0,
                                   m_lastNamed = 0, m_lastLogVal = 0\<rparr>],
              metrics := (metrics s1)(n2 \<mapsto> ?m2), sortedDirty := True\<rparr>)"
      using l(2) f2 s1(2) by (simp add: register_cases [of n2 ty2 s1])
    define s2 where "s2 = snd (register n2 ty2 s1)"
    have s2: "?s2 = s2" by (simp add: s2_def s1_def)
    have m: "metrics s2 n1 = Some ?m1" "metrics s2 n2 = Some ?m2"
      using ne by (simp_all add: s2_def r2 s1)
    then have ran: "?m1 \<in> ran (metrics s2)" "?m2 \<in> ran (metrics s2)"
      by (auto simp: ran_def)
    have "reachable ?s2" by (intro reachable_register' r)
    then have I: "inv s2" unfolding s2 by (rule reachable_inv)
    have k2: "key_order order s2" using k unfolding s2 .
    have "set (fst (Metrics order s2)) = ran (metrics s2)"
      by (rule Metrics_fst_set(2) [OF I k2])
    then have in_list: "{?m1, ?m2} \<subseteq> set (fst (Metrics order s2))" using ran by simp
    have nm: "Name ?m1 s2 = n1" "Name ?m2 s2 = n2"
      using I m by (simp_all add: inv_def reg_ok_def Name_def)
    have "fst (register n1 ty1 s) = Inr ?m1" by (simp add: r1)
    moreover have "fst (register n2 ty2 ?s1) = Inr ?m2" using r2 by (simp add: s1_def)
    moreover have "?m1 \<noteq> ?m2" by simp
    ultimately show "\<exists>m1 m2. fst (register n1 ty1 s) = Inr m1 \<and>
          fst (register n2 ty2 ?s1) = Inr m2 \<and> m1 \<noteq> m2 \<and>
          {m1, m2} \<subseteq> set (fst (Metrics order ?s2)) \<and>
          Name m1 ?s2 = n1 \<and> Name m2 ?s2 = n2"
      unfolding s2 using in_list nm by blast
  qed
qed

lemma illegal_examples:
  "\<exists>c\<in>set ''has space''. isIllegalMetricRune c"
  "\<exists>c\<in>set ''has-dash''. isIllegalMetricRune c"
  "\<not> (\<exists>c\<in>set ''valid_Name123''. isIllegalMetricRune c)"
  "legal_name ''a''" "legal_name ''b''"
  by (simp_all add: isIllegalMetricRune_def legal_name_def less_eq_char_def)

lemma not_Inl_Inr: "\<not> (\<exists>e. x = Inl e) \<Longrightarrow> \<exists>p. x = Inr p"
  by (cases x) auto

theorem registration_outcome_witness:
  "(\<exists>e. fst (NewCounter [] init) = Inl e) \<and>
   (\<exists>e. fst (NewGauge ''has space'' init) = Inl e) \<and>
   (\<exists>e. fst (NewCounter ''has-dash'' init) = Inl e) \<and>
   fst (NewCounter ''valid_Name123'' init) = Inr 0 \<and>
   (\<exists>e. fst (NewCounter ''foo_total'' sc0) = Inl e) \<and>
   registry_unchanged sc0 (snd (NewCounter ''foo_total'' sc0)) \<and>
   reachable init \<and> legal_name ''b'' \<and> legal_name ''a'' \<and> ''b'' \<noteq> ''a'' \<and>
   ''b'' \<notin> dom (metrics init) \<and> ''a'' \<notin> dom (metrics init) \<and>
   key_order [''b'', ''a''] (snd (NewGauge ''a'' (snd (NewCounter ''b'' init)))) \<and>
   {0, 1} \<subseteq> set (fst (Metrics [''b'', ''a''] (snd (NewGauge ''a'' (snd (NewCounter ''b'' init))))))"
proof -
  note c3 = conjunct2 [THEN conjunct2, THEN conjunct1]
  note c7 = conjunct2 [THEN conjunct2, THEN conjunct2, THEN conjunct2, THEN conjunct2,
      THEN conjunct2, THEN conjunct1]
  note c8 = conjunct2 [THEN conjunct2, THEN conjunct2, THEN conjunct2, THEN conjunct2,
      THEN conjunct2, THEN conjunct2, THEN conjunct1]
  note c9 = conjunct2 [THEN conjunct2, THEN conjunct2, THEN conjunct2, THEN conjunct2,
      THEN conjunct2, THEN conjunct2, THEN conjunct2]
  have R: "(\<exists>e. fst (register name TypeCounter init) = Inl e) \<longleftrightarrow>
        name = [] \<or> (\<exists>c\<in>set name. isIllegalMetricRune c) \<or> name \<in> dom (metrics init)" for name
    by (rule registration_outcome [THEN c3])
  have G: "(\<exists>e. fst (register name TypeGauge init) = Inl e) \<longleftrightarrow>
        name = [] \<or> (\<exists>c\<in>set name. isIllegalMetricRune c) \<or> name \<in> dom (metrics init)" for name
    by (rule registration_outcome [THEN c3])
  have 1: "\<exists>e. fst (NewCounter [] init) = Inl e"
    unfolding NewCounter_register by (rule R [of "[]", THEN iffD2]) simp
  have 2: "\<exists>e. fst (NewGauge ''has space'' init) = Inl e"
    unfolding NewGauge_register
    by (rule G [of "''has space''", THEN iffD2]) (simp only: illegal_examples(1) simp_thms)
  have 3: "\<exists>e. fst (NewCounter ''has-dash'' init) = Inl e"
    unfolding NewCounter_register
    by (rule R [of "''has-dash''", THEN iffD2]) (simp only: illegal_examples(2) simp_thms)
  have e: "dom (metrics init) = {}" by (simp add: init_def)
  have "\<not> (''valid_Name123'' = [] \<or> (\<exists>c\<in>set ''valid_Name123''. isIllegalMetricRune c) \<or>
      ''valid_Name123'' \<in> dom (metrics init))"
    using illegal_examples(3) by (simp only: e) simp
  then have "\<not> (\<exists>e. fst (register ''valid_Name123'' TypeCounter init) = Inl e)"
    by (simp only: R [of "''valid_Name123''"] simp_thms)
  then obtain p where p: "fst (register ''valid_Name123'' TypeCounter init) = Inr p"
    using not_Inl_Inr by blast
  have "p = length (heap init)"
    using registration_outcome [where s = init and ty = TypeCounter and name = "''valid_Name123''", THEN c8]
      p by (elim allE [of _ p]) simp
  with p have 4: "fst (NewCounter ''valid_Name123'' init) = Inr 0"
    by (simp add: NewCounter_register init_def)
  have "''foo_total'' \<in> dom (metrics sc0)" by (simp add: sc0_eq)
  then have d: "\<exists>e. fst (register ''foo_total'' TypeCounter sc0) = Inl e"
    by (simp only: registration_outcome [where s = sc0 and ty = TypeCounter and name = "''foo_total''", THEN c3]
        simp_thms)
  have u: "registry_unchanged sc0 (snd (register ''foo_total'' TypeCounter sc0))"
    by (rule registration_outcome [where s = sc0 and ty = TypeCounter and name = "''foo_total''", THEN c7,
          THEN mp, OF d])
  from d u have 5: "\<exists>e. fst (NewCounter ''foo_total'' sc0) = Inl e"
    and 6: "registry_unchanged sc0 (snd (NewCounter ''foo_total'' sc0))"
    by (simp_all only: NewCounter_register)
  let ?s2 = "snd (NewGauge ''a'' (snd (NewCounter ''b'' init)))"
  have k: "key_order [''b'', ''a''] ?s2"
    by (simp add: key_order_def eval_defs insert_commute)
  have f: "''b'' \<notin> dom (metrics init)" "''a'' \<notin> dom (metrics init)" "''b'' \<noteq> ''a''"
    by (simp_all add: init_def)
  have s2: "?s2 = snd (register ''a'' TypeGauge (snd (register ''b'' TypeCounter init)))"
    by (simp only: NewCounter_register NewGauge_register)
  have hyp: "reachable init \<and> legal_name ''b'' \<and> legal_name ''a'' \<and> ''b'' \<noteq> ''a'' \<and>
      ''b'' \<notin> dom (metrics init) \<and> ''a'' \<notin> dom (metrics init) \<and>
      key_order [''b'', ''a''] (snd (register ''a'' TypeGauge (snd (register ''b'' TypeCounter init))))"
    using reachable_init illegal_examples(4,5) f k [unfolded s2] by (intro conjI)
  from registration_outcome [where s = init and ?n1.0 = "''b''" and ?n2.0 = "''a''"
      and ?ty1.0 = TypeCounter and ?ty2.0 = TypeGauge and order = "[''b'', ''a'']", THEN c9,
      THEN mp, OF hyp]
  obtain m1 m2 where m: "fst (register ''b'' TypeCounter init) = Inr m1"
    "fst (register ''a'' TypeGauge (snd (register ''b'' TypeCounter init))) = Inr m2"
    "{m1, m2} \<subseteq> set (fst (Metrics [''b'', ''a''] ?s2))"
    unfolding s2 by (elim exE conjE)
  have "m1 = 0" "m2 = 1" using m(1,2) by (simp_all add: register_cases illegal_examples init_def)
  with m(3) have 7: "{0, 1} \<subseteq> set (fst (Metrics [''b'', ''a''] ?s2))" by simp
  show ?thesis
    using 1 2 3 4 5 6 reachable_init illegal_examples(4,5) f k 7 by (intro conjI)
qed

subsection \<open>Reading a frame back\<close>

lemma hex_val_digit: "d < 16 \<Longrightarrow> hex_val (spec_hex_digit d) = Some d"
  by (drule less_16_cases, elim disjE)
     (simp_all add: hex_val_def spec_hex_digit_def Let_def)

lemma read_uvarint_byte:
  "read_uvarint (spec_hex_byte b @ rest) =
     (if unat b < 128 then Some (unat b, rest)
      else (case read_uvarint rest of
              None \<Rightarrow> None
            | Some (n, rest') \<Rightarrow> Some (unat b - 128 + 128 * n, rest')))"
proof -
  have h: "hex_val (spec_hex_digit (unat b div 16)) = Some (unat b div 16)"
    by (rule hex_val_digit [OF byte_div16])
  have l: "hex_val (spec_hex_digit (unat b mod 16)) = Some (unat b mod 16)"
    by (rule hex_val_digit) simp
  have e: "16 * (unat b div 16) + unat b mod 16 = unat b" by simp
  show ?thesis
    unfolding spec_hex_byte_def by (simp only: append_Cons append_Nil read_uvarint.simps h l e option.case)
qed


lemma unat_byte_small: "n < 256 \<Longrightarrow> unat (of_nat n :: byte) = n"
  by (simp add: unat_of_nat)

lemma read_uvarint_base128:
  "read_uvarint (concat (map spec_hex_byte (spec_base128 n)) @ rest) = Some (n, rest)"
proof (induction n rule: spec_base128.induct)
  case (1 n)
  show ?case
  proof (cases "n < 128")
    case True
    then have u: "unat (of_nat n :: byte) = n" by (simp add: unat_byte_small)
    have "spec_base128 n = [of_nat n]" using True by (subst spec_base128.simps) simp
    then show ?thesis using True by (simp add: read_uvarint_byte u)
  next
    case False
    have u: "unat (of_nat (n mod 128 + 128) :: byte) = n mod 128 + 128"
      by (rule unat_byte_small) simp
    have b: "spec_base128 n = of_nat (n mod 128 + 128) # spec_base128 (n div 128)"
      using False by (subst spec_base128.simps) simp
    have "read_uvarint (concat (map spec_hex_byte (spec_base128 n)) @ rest) =
        read_uvarint (spec_hex_byte (of_nat (n mod 128 + 128)) @
          (concat (map spec_hex_byte (spec_base128 (n div 128))) @ rest))"
      by (simp add: b)
    also have "\<dots> = Some (n mod 128 + 128 - 128 + 128 * (n div 128), rest)"
      unfolding read_uvarint_byte u using 1 [OF False] by simp
    also have "n mod 128 + 128 - 128 + 128 * (n div 128) = n" by simp
    finally show ?thesis .
  qed
qed

lemma unzigzag_zigzag: "unzigzag (nat (spec_zigzag k)) = k"
proof (cases "0 \<le> k")
  case True
  then show ?thesis by (simp add: unzigzag_def spec_zigzag_def nat_mult_distrib)
next
  case False
  define j where "j = nat (- k - 1)"
  have k: "k = - int j - 1" using False by (simp add: j_def)
  have "spec_zigzag k = int (2 * j + 1)" using False by (simp add: spec_zigzag_def k)
  then have "nat (spec_zigzag k) = 2 * j + 1" by simp
  then show ?thesis by (simp add: unzigzag_def k)
qed

lemma read_varint_hexvarint:
  "read_varint (spec_hexvarint x @ rest) = Some (sint x, rest)"
  by (simp add: read_varint_def spec_hexvarint_def read_uvarint_base128 unzigzag_zigzag)

lemma sint_word_of_int_small:
  assumes "- (2 ^ 63) \<le> w" and "w < 2 ^ 63"
  shows "sint (word_of_int w :: int64) = w"
proof -
  have "(w + 2 ^ 63) mod 2 ^ 64 = w + 2 ^ 63" using assms by simp
  then show ?thesis by (simp add: int_word_sint)
qed

lemma sint_of_nat_small: "n < 2 ^ 63 \<Longrightarrow> sint (of_nat n :: int64) = int n"
  using sint_word_of_int_small [of "int n"] by simp

lemma decode_name_record:
  assumes "length name < 2 ^ 63"
  shows "decode_record (writeName [] name @ rest) d = Some (d\<lparr>d_pending := Some name\<rparr>, rest)"
proof -
  have w: "writeName [] name @ rest =
      CHR ''N'' # (spec_hexvarint (of_nat (length name)) @ (name @ rest))"
    by (simp add: writeName_spec)
  show ?thesis
    unfolding w
    by (simp add: read_varint_hexvarint sint_of_nat_small [OF assms])
qed

lemma decode_value_record:
  assumes "- (2 ^ 63) \<le> w" and "w < 2 ^ 63"
  shows "decode_record (writeValue [] w x @ rest) d =
     Some (d\<lparr>d_names := (case d_pending d of None \<Rightarrow> d_names d
                                            | Some nm \<Rightarrow> (d_names d)(w \<mapsto> nm)),
              d_values := (d_values d)(w := x), d_pending := None\<rparr>, rest)"
proof -
  have e: "writeValue [] w x @ rest =
      CHR ''S'' # (spec_hexvarint (word_of_int w) @ (spec_hexvarint x @ rest))"
    by (simp add: writeValue_def writeHexVarint_spec)
  show ?thesis
    unfolding e
    by (simp add: read_varint_hexvarint sint_word_of_int_small [OF assms])
qed

lemma decode_delta_record:
  assumes "- (2 ^ 63) \<le> w" and "w < 2 ^ 63"
  shows "decode_record (writeDelta [] w x @ rest) d =
     Some (d\<lparr>d_values := (d_values d)(w := d_values d w + x), d_pending := None\<rparr>, rest)"
proof -
  have e: "writeDelta [] w x @ rest =
      CHR ''I'' # (spec_hexvarint (word_of_int w) @ (spec_hexvarint x @ rest))"
    by (simp add: writeDelta_def writeHexVarint_spec)
  show ?thesis
    unfolding e
    by (simp add: read_varint_hexvarint sint_word_of_int_small [OF assms])
qed

lemma decode_fuel_Nil [simp]: "decode_fuel k [] d = Some d"
  by (cases k) simp_all

lemma writeName_nonempty: "writeName [] name \<noteq> []"
  by (simp add: writeName_spec)

lemma writeValue_nonempty: "writeValue [] w x \<noteq> []"
  by (simp add: writeValue_def writeHexVarint_spec)

lemma writeDelta_nonempty: "writeDelta [] w x \<noteq> []"
  by (simp add: writeDelta_def writeHexVarint_spec)

lemma decode_name_value:
  assumes "length name < 2 ^ 63" and "- (2 ^ 63) \<le> w" and "w < 2 ^ 63" and "d_pending d = None"
  shows "decode_frame (writeValue (writeName [] name) w x) d =
     Some (d\<lparr>d_names := (d_names d)(w \<mapsto> name), d_values := (d_values d)(w := x),
              d_pending := None\<rparr>)"
proof -
  define v where "v = writeValue [] w x"
  define f where "f = writeName [] name @ v"
  have e: "writeValue (writeName [] name) w x = f"
    unfolding f_def v_def by (rule writeValue_append)
  have vne: "v \<noteq> []" unfolding v_def by (rule writeValue_nonempty)
  have fne: "f \<noteq> []" unfolding f_def by (simp add: writeName_nonempty)
  have "2 \<le> length f"
    using writeName_nonempty [of name] vne unfolding f_def
    by (cases "writeName [] name"; cases v) simp_all
  then obtain k where k: "length f = Suc (Suc k)"
    by (metis add_2_eq_Suc le_Suc_ex)
  have r1: "decode_record f d = Some (d\<lparr>d_pending := Some name\<rparr>, v)"
    unfolding f_def by (rule decode_name_record [OF assms(1)])
  have r2: "decode_record v (d\<lparr>d_pending := Some name\<rparr>) =
      Some (d\<lparr>d_names := (d_names d)(w \<mapsto> name), d_values := (d_values d)(w := x),
               d_pending := None\<rparr>, [])"
    using decode_value_record [OF assms(2,3), of x "[]" "d\<lparr>d_pending := Some name\<rparr>"]
    by (simp add: v_def)
  show ?thesis
    unfolding decode_frame_def e k by (simp add: fne vne r1 r2)
qed

lemma decode_delta:
  assumes "- (2 ^ 63) \<le> w" and "w < 2 ^ 63"
  shows "decode_frame (writeDelta [] w x) d =
     Some (d\<lparr>d_values := (d_values d)(w := d_values d w + x), d_pending := None\<rparr>)"
proof -
  define f where "f = writeDelta [] w x"
  have fne: "f \<noteq> []" unfolding f_def by (rule writeDelta_nonempty)
  then obtain k where k: "length f = Suc k" by (cases f) simp_all
  have r: "decode_record f d =
      Some (d\<lparr>d_values := (d_values d)(w := d_values d w + x), d_pending := None\<rparr>, [])"
    using decode_delta_record [OF assms, of x "[]" d] by (simp add: f_def)
  show ?thesis
    unfolding decode_frame_def f_def [symmetric] k by (simp add: fne r)
qed

lemma fresh_counter:
  assumes "legal_name name"
  shows "NewCounter name init =
     (Inr 0, \<lparr>heap = [\<lparr>m_v = 0, m_name = name, m_typ = TypeCounter, m_wireID = 0,
                       m_lastNamed = 0, m_lastLogVal = 0\<rparr>],
              metrics = [name \<mapsto> 0], numWireID = 0, lastDelta = 0,
              sortedDirty = True, sorted_slice = []\<rparr>)"
  using assms by (simp add: NewCounter_register register_cases init_def)

lemma first_encode:
  assumes "a \<noteq> 0"
  shows "EncodeLogTailMetricsDelta t1 [name]
       \<lparr>heap = [\<lparr>m_v = a, m_name = name, m_typ = ty, m_wireID = 0,
                  m_lastNamed = 0, m_lastLogVal = 0\<rparr>],
        metrics = [name \<mapsto> 0], numWireID = 0, lastDelta = 0,
        sortedDirty = dirty, sorted_slice = sl\<rparr> =
     (writeValue (writeName [] name) 1 a,
       \<lparr>heap = [\<lparr>m_v = a, m_name = name, m_typ = ty, m_wireID = 1,
                  m_lastNamed = t1, m_lastLogVal = a\<rparr>],
        metrics = [name \<mapsto> 0], numWireID = 1, lastDelta = t1,
        sortedDirty = dirty, sorted_slice = sl\<rparr>)"
  using assms
  by (simp add: EncodeLogTailMetricsDelta_def IsZero_def range_metrics_def List.map_filter_def
      encodeMetric_def Value_def Name_def Let_def)

lemma second_encode:
  assumes "b \<noteq> 0" and "t1 \<noteq> 0" and "\<not> Sub t2 t1 < minMetricEncodeInterval"
    and "\<not> Sub t2 t1 > metricLogNameFrequency"
  shows "EncodeLogTailMetricsDelta t2 [name]
       \<lparr>heap = [\<lparr>m_v = a + b, m_name = name, m_typ = ty, m_wireID = 1,
                  m_lastNamed = t1, m_lastLogVal = a\<rparr>],
        metrics = [name \<mapsto> 0], numWireID = 1, lastDelta = t1,
        sortedDirty = dirty, sorted_slice = sl\<rparr> =
     (writeDelta [] 1 b,
       \<lparr>heap = [\<lparr>m_v = a + b, m_name = name, m_typ = ty, m_wireID = 1,
                  m_lastNamed = t1, m_lastLogVal = a + b\<rparr>],
        metrics = [name \<mapsto> 0], numWireID = 1, lastDelta = t2,
        sortedDirty = dirty, sorted_slice = sl\<rparr>)"
  using assms
  by (simp add: EncodeLogTailMetricsDelta_def IsZero_def range_metrics_def List.map_filter_def
      encodeMetric_def Value_def Name_def Let_def)

text \<open>
  Claim C4. A counter with a legal name is registered in a fresh process; its
  value is 0. After \<^verbatim>\<open>Add(a)\<close> with \<open>a\<close> not 0 (5 in the claim), an encode call
  at a clock reading \<open>t1\<close> returns exactly a name record followed by a value
  record with the value \<open>a\<close>, for the wire id 1. After a further \<^verbatim>\<open>Add(b)\<close> with
  \<open>b\<close> not 0 (3 in the claim), an encode call at \<open>t2\<close>, not less than 15 seconds
  and not more than 4 hours after \<open>t1\<close>, returns exactly one increment record
  with \<open>b\<close>, and no name or value record. The consumer that starts with every
  value 0 reads the first frame as: wire id 1 has the name and the value \<open>a\<close>;
  and then the second frame as: wire id 1 has the value \<open>a + b\<close> (8 in the
  claim).
\<close>

theorem round_trip:
  assumes "legal_name name" and "length name < 2 ^ 63" and "a \<noteq> 0" and "b \<noteq> 0"
    and "\<not> IsZero t1" and "\<not> Sub t2 t1 < minMetricEncodeInterval"
    and "\<not> Sub t2 t1 > metricLogNameFrequency"
  defines "s1 \<equiv> snd (NewCounter name init)"
  defines "s2 \<equiv> Add 0 a s1"
  defines "f1 \<equiv> fst (EncodeLogTailMetricsDelta t1 [name] s2)"
  defines "s3 \<equiv> snd (EncodeLogTailMetricsDelta t1 [name] s2)"
  defines "s4 \<equiv> Add 0 b s3"
  defines "f2 \<equiv> fst (EncodeLogTailMetricsDelta t2 [name] s4)"
  shows "fst (NewCounter name init) = Inr 0 \<and> Value 0 s1 = 0 \<and> Value 0 s2 = a \<and>
         f1 = writeValue (writeName [] name) 1 a \<and>
         Value 0 s4 = a + b \<and>
         f2 = writeDelta [] 1 b \<and>
         (\<exists>d1 d2. decode_frame f1 decoder0 = Some d1 \<and>
                  d_values d1 1 = a \<and> d_names d1 1 = Some name \<and>
                  decode_frame f2 d1 = Some d2 \<and>
                  d_values d2 1 = a + b \<and> d_names d2 1 = Some name)"
proof -
  note c = fresh_counter [OF assms(1)]
  have s1: "s1 = \<lparr>heap = [\<lparr>m_v = 0, m_name = name, m_typ = TypeCounter, m_wireID = 0,
                       m_lastNamed = 0, m_lastLogVal = 0\<rparr>],
              metrics = [name \<mapsto> 0], numWireID = 0, lastDelta = 0,
              sortedDirty = True, sorted_slice = []\<rparr>"
    by (simp add: s1_def c)
  have s2: "s2 = \<lparr>heap = [\<lparr>m_v = a, m_name = name, m_typ = TypeCounter, m_wireID = 0,
                       m_lastNamed = 0, m_lastLogVal = 0\<rparr>],
              metrics = [name \<mapsto> 0], numWireID = 0, lastDelta = 0,
              sortedDirty = True, sorted_slice = []\<rparr>"
    by (simp add: s2_def s1 Add_def)
  note e1 = first_encode [OF assms(3), where ?t1.0 = t1 and name = name and ty = TypeCounter and dirty = True and sl = "[]"]
  have f1: "f1 = writeValue (writeName [] name) 1 a"
    by (simp add: f1_def s2 e1)
  have s3: "s3 = \<lparr>heap = [\<lparr>m_v = a, m_name = name, m_typ = TypeCounter, m_wireID = 1,
                  m_lastNamed = t1, m_lastLogVal = a\<rparr>],
        metrics = [name \<mapsto> 0], numWireID = 1, lastDelta = t1,
        sortedDirty = True, sorted_slice = []\<rparr>"
    by (simp add: s3_def s2 e1)
  have s4: "s4 = \<lparr>heap = [\<lparr>m_v = a + b, m_name = name, m_typ = TypeCounter, m_wireID = 1,
                  m_lastNamed = t1, m_lastLogVal = a\<rparr>],
        metrics = [name \<mapsto> 0], numWireID = 1, lastDelta = t1,
        sortedDirty = True, sorted_slice = []\<rparr>"
    by (simp add: s4_def s3 Add_def)
  have t: "t1 \<noteq> 0" using assms(5) by (simp add: IsZero_def)
  note e2 = second_encode [OF assms(4) t assms(6,7), where a = a and name = name and ty = TypeCounter and dirty = True and sl = "[]"]
  have f2: "f2 = writeDelta [] 1 b"
    by (simp add: f2_def s4 e2)
  define d1 where "d1 = decoder0\<lparr>d_names := (d_names decoder0)(1 \<mapsto> name),
      d_values := (d_values decoder0)(1 := a), d_pending := None\<rparr>"
  define d2 where "d2 = d1\<lparr>d_values := (d_values d1)(1 := d_values d1 1 + b), d_pending := None\<rparr>"
  have p0: "d_pending decoder0 = None" by (simp add: decoder0_def)
  have r1: "decode_frame f1 decoder0 = Some d1"
    unfolding f1 d1_def by (rule decode_name_value [OF assms(2) _ _ p0]) simp_all
  have r2: "decode_frame f2 d1 = Some d2"
    unfolding f2 d2_def by (rule decode_delta) simp_all
  have v: "d_values d1 1 = a" "d_names d1 1 = Some name"
    "d_values d2 1 = a + b" "d_names d2 1 = Some name"
    by (simp_all add: d1_def d2_def)
  have "fst (NewCounter name init) = Inr 0" by (simp add: c)
  moreover have "Value 0 s1 = 0" "Value 0 s2 = a" "Value 0 s4 = a + b"
    by (simp_all add: s1 s2 s4 Value_def)
  ultimately show ?thesis using f1 f2 r1 r2 v by blast
qed

theorem round_trip_witness:
  "legal_name ''foo'' \<and> length ''foo'' < 2 ^ 63 \<and> (5 :: int64) \<noteq> 0 \<and> (3 :: int64) \<noteq> 0 \<and>
   \<not> IsZero t0 \<and> \<not> Sub (t0 + 15 * Second) t0 < minMetricEncodeInterval \<and>
   \<not> Sub (t0 + 15 * Second) t0 > metricLogNameFrequency \<and>
   fst (EncodeLogTailMetricsDelta t0 [''foo''] (Add 0 5 (snd (NewCounter ''foo'' init)))) = ''N06fooS020a'' \<and>
   fst (EncodeLogTailMetricsDelta (t0 + 15 * Second) [''foo'']
         (Add 0 3 (snd (EncodeLogTailMetricsDelta t0 [''foo''] (Add 0 5 (snd (NewCounter ''foo'' init)))))))
     = ''I0206'' \<and>
   (\<exists>d1 d2. decode_frame ''N06fooS020a'' decoder0 = Some d1 \<and> d_values d1 1 = 5 \<and>
      d_names d1 1 = Some ''foo'' \<and>
      decode_frame ''I0206'' d1 = Some d2 \<and> d_values d2 1 = 8 \<and> d_names d2 1 = Some ''foo'')"
proof -
  have h1: "legal_name ''foo''"
    by (simp add: legal_name_def isIllegalMetricRune_def less_eq_char_def)
  have h2: "length ''foo'' < 2 ^ 63" by simp
  have h3: "(5 :: int64) \<noteq> 0" "(3 :: int64) \<noteq> 0" by simp_all
  have h5: "\<not> IsZero t0" using t0_pos by (simp add: IsZero_def)
  have h6: "\<not> Sub (t0 + 15 * Second) t0 < minMetricEncodeInterval"
    by (simp add: Sub_def minMetricEncodeInterval_def Second_def maxDuration_def minDuration_def)
  have h7: "\<not> Sub (t0 + 15 * Second) t0 > metricLogNameFrequency"
    by (simp add: Sub_def metricLogNameFrequency_def Hour_def Second_def maxDuration_def minDuration_def)
  have w1: "writeValue (writeName [] ''foo'') 1 5 = ''N06fooS020a''"
    by (simp add: eval_defs)
  have w2: "writeDelta [] 1 3 = ''I0206''"
    by (simp add: eval_defs)
  have s: "(5 :: int64) + 3 = 8" by simp
  note T = round_trip [OF h1 h2 h3 h5 h6 h7, unfolded w1 w2 s]
  let ?f1 = "fst (EncodeLogTailMetricsDelta t0 [''foo''] (Add 0 5 (snd (NewCounter ''foo'' init))))"
  let ?f2 = "fst (EncodeLogTailMetricsDelta (t0 + 15 * Second) [''foo'']
         (Add 0 3 (snd (EncodeLogTailMetricsDelta t0 [''foo''] (Add 0 5 (snd (NewCounter ''foo'' init)))))))"
  note T4 = T [THEN conjunct2, THEN conjunct2, THEN conjunct2]
  note T6 = T4 [THEN conjunct2, THEN conjunct2]
  have e1: "?f1 = ''N06fooS020a''" by (rule T4 [THEN conjunct1])
  have e2: "?f2 = ''I0206''" by (rule T6 [THEN conjunct1])
  have "\<exists>d1 d2. decode_frame ?f1 decoder0 = Some d1 \<and> d_values d1 1 = 5 \<and>
      d_names d1 1 = Some ''foo'' \<and>
      decode_frame ?f2 d1 = Some d2 \<and> d_values d2 1 = 8 \<and> d_names d2 1 = Some ''foo''"
    by (rule T6 [THEN conjunct2])
  then have ex: "\<exists>d1 d2. decode_frame ''N06fooS020a'' decoder0 = Some d1 \<and> d_values d1 1 = 5 \<and>
      d_names d1 1 = Some ''foo'' \<and>
      decode_frame ''I0206'' d1 = Some d2 \<and> d_values d2 1 = 8 \<and> d_names d2 1 = Some ''foo''"
    by (simp only: e1 e2)
  show ?thesis
    using h1 h2 h3 h5 h6 h7 e1 e2 ex by (intro conjI)
qed

subsection \<open>Decimal digits\<close>

lemma digit_value: "d < 10 \<Longrightarrow> of_char (''0123456789'' ! d) - 48 = d"
proof -
  assume "d < 10"
  then have "d = 0 \<or> d = 1 \<or> d = 2 \<or> d = 3 \<or> d = 4 \<or> d = 5 \<or> d = 6 \<or> d = 7 \<or> d = 8 \<or> d = 9"
    by arith
  then show ?thesis by (elim disjE) simp_all
qed

lemma FormatUint_decimal: "decimal_value (FormatUint n) = n"
proof (induction n rule: FormatUint.induct)
  case (1 n)
  show ?case
  proof (cases "n < 10")
    case True
    then show ?thesis
      by (subst FormatUint.simps) (simp add: decimal_value_def digit_value)
  next
    case False
    have m: "n mod 10 < 10" by simp
    have "decimal_value (FormatUint n) =
        10 * decimal_value (FormatUint (n div 10)) + (of_char (''0123456789'' ! (n mod 10)) - 48)"
      using False by (subst FormatUint.simps) (simp add: decimal_value_def)
    also have "\<dots> = 10 * (n div 10) + n mod 10"
      using 1 [OF False] digit_value [OF m] by simp
    finally show ?thesis by simp
  qed
qed

lemma FormatInt_decimal:
  "FormatInt i = (if sint i < 0 then CHR ''-'' # FormatUint (nat \<bar>sint i\<bar>) else FormatUint (nat \<bar>sint i\<bar>))"
  "decimal_value (FormatUint (nat \<bar>sint i\<bar>)) = nat \<bar>sint i\<bar>"
  by (simp_all add: FormatInt_def FormatUint_decimal)

end
